theory Spec2Isabelle
  imports Main "HOL-Library.Word"
begin

section \<open>iucollections: ConcurrentQueue<T>, a bounded ring buffer\<close>

text \<open>
  A shallow embedding of \<^verbatim>\<open>include/iucollections/concurrentqueue.hpp\<close>.

  Every member function takes its \<^verbatim>\<open>std::mutex\<close> for its whole body, so each call is
  one atomic step on the memory; the model is the sequential semantics of these steps.
  \<^verbatim>\<open>std::size_t\<close> is a 64-bit unsigned word. The memory holds the queue objects (by
  address) and the \<^verbatim>\<open>T[]\<close> blocks made by \<^verbatim>\<open>new T[n]\<close> (by address), so that two
  objects pointing at one block, and a pointer to a deleted block, are visible.
  The memory also holds how many elements the free store can still supply: \<^verbatim>\<open>new T[n]\<close>
  throws when \<open>n\<close> is more than that. The operations of \<^verbatim>\<open>T\<close> itself (default
  construction, assignment) do not throw.

  A member function is a function from the memory before the call to the outcome of the
  call and the memory after it: \<open>Inr\<close> the value returned, \<open>Inl\<close> the exception thrown
  or the undefined behaviour reached. After an exception the memory is the one the throw
  left behind; after undefined behaviour it means nothing.
\<close>

subsection \<open>Data model\<close>

type_synonym size_t = "64 word"

definition SIZE_MAX :: size_t where
  "SIZE_MAX = - 1"

text \<open>
  The three exceptions the code throws, under the names the specification uses, the
  exception of a failed allocation, and the ways a call can leave defined behaviour.
\<close>

datatype error =
    InvalidCapacity  \<comment> \<open>\<^verbatim>\<open>std::underflow_error\<close>, "cannot have a capacity of 0 items"\<close>
  | Full             \<comment> \<open>\<^verbatim>\<open>std::overflow_error\<close>, "instance is full"\<close>
  | Empty            \<comment> \<open>\<^verbatim>\<open>std::underflow_error\<close>, "instance is empty"\<close>
  | BadAlloc         \<comment> \<open>\<^verbatim>\<open>std::bad_alloc\<close> or \<^verbatim>\<open>std::bad_array_new_length\<close> from \<^verbatim>\<open>new T[n]\<close>\<close>
  | NoObject         \<comment> \<open>member call on an address holding no queue object\<close>
  | UseAfterFree     \<comment> \<open>element access through a pointer to a deleted block\<close>
  | DoubleFree       \<comment> \<open>\<^verbatim>\<open>delete []\<close> of a block that is not live\<close>
  | OutOfBounds      \<comment> \<open>element access past the end of a block\<close>
  | DivByZero        \<comment> \<open>\<^verbatim>\<open>%\<close> with a zero right operand\<close>
  | Relock           \<comment> \<open>a thread locking a \<^verbatim>\<open>std::mutex\<close> it already owns\<close>

text \<open>
  The data members of the class; \<open>items\<close> is the address of the \<^verbatim>\<open>T[]\<close> block.
  The members \<^verbatim>\<open>capacity_\<close>, \<^verbatim>\<open>size_\<close> and \<^verbatim>\<open>back\<close> are the fields \<open>capacity_m\<close>,
  \<open>size_m\<close> and \<open>back_m\<close>.
\<close>

record ConcurrentQueue =
  items :: nat
  capacity_m :: size_t
  size_m :: size_t
  front :: size_t
  back_m :: size_t

record 'a memory =
  objects :: "nat \<rightharpoonup> ConcurrentQueue"
  arrays :: "nat \<rightharpoonup> 'a list"
  next_array :: nat
  free_store :: nat

text \<open>
  A memory before anything is constructed; its free store has room for 1024 elements.
\<close>

definition mem0 :: "'a memory" where
  "mem0 =
     \<lparr>objects = Map.empty, arrays = Map.empty, next_array = 0, free_store = 1024\<rparr>"

text \<open>A \<^verbatim>\<open>T &\<close> into a block: the block's address and the element's index.\<close>

type_synonym ref = "nat \<times> size_t"

type_synonym ('a, 'r) outcome = "(error + 'r) \<times> 'a memory"

subsection \<open>Blocks of elements\<close>

text \<open>
  \<^verbatim>\<open>new T[n]\<close>. It throws when the free store has fewer than \<open>n\<close> elements left (a
  request no machine can meet, such as \<^verbatim>\<open>SIZE_MAX\<close> elements, included). Otherwise the
  block is at an address never used before, and its \<open>n\<close> elements hold \<open>dflt\<close>, which
  stands for what default initialisation leaves in a slot: \<^verbatim>\<open>T()\<close> for a class type,
  some value that nothing is known of for a scalar type.
\<close>

definition new_array :: "size_t \<Rightarrow> 'a \<Rightarrow> 'a memory \<Rightarrow> error + (nat \<times> 'a memory)" where
  "new_array n dflt s =
     (if free_store s < unat n then Inl BadAlloc
      else
        Inr (next_array s,
             s\<lparr>arrays := (arrays s)(next_array s \<mapsto> replicate (unat n) dflt),
               next_array := Suc (next_array s),
               free_store := free_store s - unat n\<rparr>))"

text \<open>\<^verbatim>\<open>delete [] p\<close>: the elements of the block go back to the free store.\<close>

definition delete_array :: "nat \<Rightarrow> 'a memory \<Rightarrow> error + 'a memory" where
  "delete_array p s =
     (case arrays s p of
        None \<Rightarrow> Inl DoubleFree
      | Some xs \<Rightarrow>
          Inr (s\<lparr>arrays := (arrays s)(p := None),
                free_store := free_store s + length xs\<rparr>))"

text \<open>\<^verbatim>\<open>p[i]\<close> as a reference, as a value read, and as the target of an assignment.\<close>

definition item_ref :: "nat \<Rightarrow> size_t \<Rightarrow> 'a memory \<Rightarrow> error + ref" where
  "item_ref p i s =
     (case arrays s p of
        None \<Rightarrow> Inl UseAfterFree
      | Some xs \<Rightarrow> if unat i < length xs then Inr (p, i) else Inl OutOfBounds)"

definition read_item :: "nat \<Rightarrow> size_t \<Rightarrow> 'a memory \<Rightarrow> error + 'a" where
  "read_item p i s =
     (case arrays s p of
        None \<Rightarrow> Inl UseAfterFree
      | Some xs \<Rightarrow> if unat i < length xs then Inr (xs ! unat i) else Inl OutOfBounds)"

definition write_item :: "nat \<Rightarrow> size_t \<Rightarrow> 'a \<Rightarrow> 'a memory \<Rightarrow> error + 'a memory" where
  "write_item p i v s =
     (case arrays s p of
        None \<Rightarrow> Inl UseAfterFree
      | Some xs \<Rightarrow>
          if unat i < length xs
          then Inr (s\<lparr>arrays := (arrays s)(p \<mapsto> xs[unat i := v])\<rparr>)
          else Inl OutOfBounds)"

text \<open>Reading through a reference handed out by \<open>pop\<close> or a peek.\<close>

definition deref :: "'a memory \<Rightarrow> ref \<Rightarrow> error + 'a" where
  "deref s r = read_item (fst r) (snd r) s"

text \<open>
  The loop \<^verbatim>\<open>for (i = 0; i < queue.capacity_; ++i) this->items[i] = queue.items[i];\<close>
  of the copy and move constructors and of copy assignment, entered at index \<open>i\<close>.
\<close>

function copy_items :: "nat \<Rightarrow> nat \<Rightarrow> size_t \<Rightarrow> size_t \<Rightarrow> 'a memory \<Rightarrow> error + 'a memory" where
  "copy_items dst src n i s =
     (if i < n
      then (case read_item src i s of
              Inl e \<Rightarrow> Inl e
            | Inr v \<Rightarrow>
                (case write_item dst i v s of
                   Inl e \<Rightarrow> Inl e
                 | Inr s' \<Rightarrow> copy_items dst src n (i + 1) s'))
      else Inr s)"
  by pat_completeness auto
termination
proof (relation "measure (\<lambda>(dst, src, n, i, s). unat n - unat i)")
  show "wf (measure (\<lambda>(dst, src, n, i, s). unat n - unat i))"
    by simp
next
  fix dst src :: nat and n i :: size_t and s s' :: "'a memory" and v :: 'a
  assume "i < n"
  then have "unat i < unat n"
    by (simp add: word_less_nat_alt)
  moreover have "unat n < 2 ^ 64"
    using unsigned_less [of n] by simp
  ultimately have "unat i < unat n" and "unat (i + 1) = Suc (unat i)"
    by (simp_all add: unat_word_ariths)
  then show "((dst, src, n, i + 1, s'), (dst, src, n, i, s))
      \<in> measure (\<lambda>(dst, src, n, i, s). unat n - unat i)"
    by simp
qed

declare copy_items.simps [simp del]

subsection \<open>The class\<close>

text \<open>
  \<^verbatim>\<open>safe_increment(value)\<close>, with \<^verbatim>\<open>this->capacity_\<close> as a parameter; the result is the
  new content of \<^verbatim>\<open>value\<close>.
\<close>

definition safe_increment :: "size_t \<Rightarrow> size_t \<Rightarrow> error + size_t" where
  "safe_increment capacity val =
     (let val' = (if val = SIZE_MAX then 0 else val)
      in if capacity = 0 then Inl DivByZero else Inr ((val' + 1) mod capacity))"

text \<open>
  \<^verbatim>\<open>ConcurrentQueue(const std::size_t capacity)\<close>, building the object at \<open>this\<close>. A
  throw, the constructor's own or the allocation's, leaves no object behind.
\<close>

definition ctor :: "nat \<Rightarrow> size_t \<Rightarrow> 'a \<Rightarrow> 'a memory \<Rightarrow> ('a, unit) outcome" where
  "ctor this capacity dflt s =
     (if capacity = 0 then (Inl InvalidCapacity, s)
      else
        (case new_array capacity dflt s of
           Inl e \<Rightarrow> (Inl e, s)
         | Inr (p, s1) \<Rightarrow>
             (Inr (),
              s1\<lparr>objects := (objects s1)(this \<mapsto>
                \<lparr>items = p, capacity_m = capacity, size_m = 0, front = 0,
                 back_m = capacity - 1\<rparr>)\<rparr>)))"

text \<open>
  \<^verbatim>\<open>ConcurrentQueue(const ConcurrentQueue & queue)\<close>: a new object at \<open>this\<close> (an
  address other than \<open>queue\<close>).
\<close>

definition copy_ctor :: "nat \<Rightarrow> nat \<Rightarrow> 'a \<Rightarrow> 'a memory \<Rightarrow> ('a, unit) outcome" where
  "copy_ctor this queue dflt s =
     (case objects s queue of
        None \<Rightarrow> (Inl NoObject, s)
      | Some q \<Rightarrow>
          (case new_array (capacity_m q) dflt s of
             Inl e \<Rightarrow> (Inl e, s)
           | Inr (p, s1) \<Rightarrow>
               let s2 = s1\<lparr>objects := (objects s1)(this \<mapsto>
                          \<lparr>items = p, capacity_m = capacity_m q, size_m = size_m q,
                           front = front q, back_m = back_m q\<rparr>)\<rparr>
               in (case copy_items p (items q) (capacity_m q) 0 s2 of
                     Inl e \<Rightarrow> (Inl e, s2)
                   | Inr s3 \<Rightarrow> (Inr (), s3))))"

text \<open>
  \<^verbatim>\<open>ConcurrentQueue(ConcurrentQueue && queue)\<close>: the same allocation and loop (each
  element move-assigned), then \<^verbatim>\<open>delete [] queue.items\<close>. No member of \<open>queue\<close> is
  written.
\<close>

definition move_ctor :: "nat \<Rightarrow> nat \<Rightarrow> 'a \<Rightarrow> 'a memory \<Rightarrow> ('a, unit) outcome" where
  "move_ctor this queue dflt s =
     (case objects s queue of
        None \<Rightarrow> (Inl NoObject, s)
      | Some q \<Rightarrow>
          (case new_array (capacity_m q) dflt s of
             Inl e \<Rightarrow> (Inl e, s)
           | Inr (p, s1) \<Rightarrow>
               let s2 = s1\<lparr>objects := (objects s1)(this \<mapsto>
                          \<lparr>items = p, capacity_m = capacity_m q, size_m = size_m q,
                           front = front q, back_m = back_m q\<rparr>)\<rparr>
               in (case copy_items p (items q) (capacity_m q) 0 s2 of
                     Inl e \<Rightarrow> (Inl e, s2)
                   | Inr s3 \<Rightarrow>
                       (case delete_array (items q) s3 of
                          Inl e \<Rightarrow> (Inl e, s3)
                        | Inr s4 \<Rightarrow> (Inr (), s4)))))"

text \<open>\<^verbatim>\<open>~ConcurrentQueue()\<close>: the block is deleted and the object is gone.\<close>

definition dtor :: "nat \<Rightarrow> 'a memory \<Rightarrow> ('a, unit) outcome" where
  "dtor this s =
     (case objects s this of
        None \<Rightarrow> (Inl NoObject, s)
      | Some t \<Rightarrow>
          (case delete_array (items t) s of
             Inl e \<Rightarrow> (Inl e, s)
           | Inr s1 \<Rightarrow> (Inr (), s1\<lparr>objects := (objects s1)(this := None)\<rparr>)))"

text \<open>
  \<^verbatim>\<open>operator=(const ConcurrentQueue & queue)\<close>. Both lock guards are built before the
  test for self-assignment, so on self-assignment the one mutex is locked twice by the
  calling thread and the test is never reached. The old block is deleted before the new
  one is allocated: when the allocation throws, \<open>this\<close> keeps its members and points
  at the deleted block.
\<close>

definition copy_assign :: "nat \<Rightarrow> nat \<Rightarrow> 'a \<Rightarrow> 'a memory \<Rightarrow> ('a, unit) outcome" where
  "copy_assign this queue dflt s =
     (case objects s this of
        None \<Rightarrow> (Inl NoObject, s)
      | Some t \<Rightarrow>
     (case objects s queue of
        None \<Rightarrow> (Inl NoObject, s)
      | Some q \<Rightarrow>
          if this = queue then (Inl Relock, s)
          else if this = queue then (Inr (), s)
          else
            (case delete_array (items t) s of
               Inl e \<Rightarrow> (Inl e, s)
             | Inr s0 \<Rightarrow>
                 (case new_array (capacity_m q) dflt s0 of
                    Inl e \<Rightarrow> (Inl e, s0)
                  | Inr (p, s1) \<Rightarrow>
                      let s2 = s1\<lparr>objects := (objects s1)(this \<mapsto>
                                 \<lparr>items = p, capacity_m = capacity_m q,
                                  size_m = size_m q, front = front q,
                                  back_m = back_m q\<rparr>)\<rparr>
                      in (case copy_items p (items q) (capacity_m q) 0 s2 of
                            Inl e \<Rightarrow> (Inl e, s2)
                          | Inr s3 \<Rightarrow> (Inr (), s3))))))"

text \<open>
  \<^verbatim>\<open>operator=(ConcurrentQueue && queue)\<close>: \<open>this\<close> takes over the pointer; no member of
  \<open>queue\<close> is written.
\<close>

definition move_assign :: "nat \<Rightarrow> nat \<Rightarrow> 'a memory \<Rightarrow> ('a, unit) outcome" where
  "move_assign this queue s =
     (case objects s this of
        None \<Rightarrow> (Inl NoObject, s)
      | Some t \<Rightarrow>
     (case objects s queue of
        None \<Rightarrow> (Inl NoObject, s)
      | Some q \<Rightarrow>
          if this = queue then (Inl Relock, s)
          else if this = queue then (Inr (), s)
          else
            (case delete_array (items t) s of
               Inl e \<Rightarrow> (Inl e, s)
             | Inr s0 \<Rightarrow>
                 (Inr (),
                  s0\<lparr>objects := (objects s0)(this \<mapsto>
                    \<lparr>items = items q, capacity_m = capacity_m q, size_m = size_m q,
                     front = front q, back_m = back_m q\<rparr>)\<rparr>))))"

text \<open>The observers.\<close>

definition size_op :: "nat \<Rightarrow> 'a memory \<Rightarrow> ('a, size_t) outcome" where
  "size_op this s =
     (case objects s this of
        None \<Rightarrow> (Inl NoObject, s)
      | Some t \<Rightarrow> (Inr (size_m t), s))"

definition capacity :: "nat \<Rightarrow> 'a memory \<Rightarrow> ('a, size_t) outcome" where
  "capacity this s =
     (case objects s this of
        None \<Rightarrow> (Inl NoObject, s)
      | Some t \<Rightarrow> (Inr (capacity_m t), s))"

definition empty_op :: "nat \<Rightarrow> 'a memory \<Rightarrow> ('a, bool) outcome" where
  "empty_op this s =
     (case objects s this of
        None \<Rightarrow> (Inl NoObject, s)
      | Some t \<Rightarrow> (Inr (size_m t = 0), s))"

definition full :: "nat \<Rightarrow> 'a memory \<Rightarrow> ('a, bool) outcome" where
  "full this s =
     (case objects s this of
        None \<Rightarrow> (Inl NoObject, s)
      | Some t \<Rightarrow> (Inr (size_m t = capacity_m t), s))"

text \<open>
  \<^verbatim>\<open>peek_front\<close> and \<^verbatim>\<open>peek_back\<close> return \<^verbatim>\<open>items[front]\<close> and \<^verbatim>\<open>items[back]\<close> and
  test nothing.
\<close>

definition peek_front :: "nat \<Rightarrow> 'a memory \<Rightarrow> ('a, ref) outcome" where
  "peek_front this s =
     (case objects s this of
        None \<Rightarrow> (Inl NoObject, s)
      | Some t \<Rightarrow> (item_ref (items t) (front t) s, s))"

definition peek_back :: "nat \<Rightarrow> 'a memory \<Rightarrow> ('a, ref) outcome" where
  "peek_back this s =
     (case objects s this of
        None \<Rightarrow> (Inl NoObject, s)
      | Some t \<Rightarrow> (item_ref (items t) (back_m t) s, s))"

text \<open>
  \<^verbatim>\<open>push(const T & item)\<close>: the test, then \<^verbatim>\<open>safe_increment(this->back)\<close>, the
  assignment to \<^verbatim>\<open>items[back]\<close> and \<^verbatim>\<open>++size_\<close>, in this order.
\<close>

definition push :: "nat \<Rightarrow> 'a \<Rightarrow> 'a memory \<Rightarrow> ('a, unit) outcome" where
  "push this item s =
     (case objects s this of
        None \<Rightarrow> (Inl NoObject, s)
      | Some t \<Rightarrow>
          if size_m t = capacity_m t then (Inl Full, s)
          else
            (case safe_increment (capacity_m t) (back_m t) of
               Inl e \<Rightarrow> (Inl e, s)
             | Inr b \<Rightarrow>
                 let s1 = s\<lparr>objects := (objects s)(this \<mapsto> t\<lparr>back_m := b\<rparr>)\<rparr>
                 in (case write_item (items t) b item s1 of
                       Inl e \<Rightarrow> (Inl e, s1)
                     | Inr s2 \<Rightarrow>
                         (Inr (),
                          s2\<lparr>objects := (objects s2)(this \<mapsto>
                            t\<lparr>back_m := b, size_m := size_m t + 1\<rparr>)\<rparr>))))"

text \<open>\<^verbatim>\<open>push(T && item)\<close>: the same steps, the element move-assigned.\<close>

definition push_rvalue :: "nat \<Rightarrow> 'a \<Rightarrow> 'a memory \<Rightarrow> ('a, unit) outcome" where
  "push_rvalue this item s =
     (case objects s this of
        None \<Rightarrow> (Inl NoObject, s)
      | Some t \<Rightarrow>
          if size_m t = capacity_m t then (Inl Full, s)
          else
            (case safe_increment (capacity_m t) (back_m t) of
               Inl e \<Rightarrow> (Inl e, s)
             | Inr b \<Rightarrow>
                 let s1 = s\<lparr>objects := (objects s)(this \<mapsto> t\<lparr>back_m := b\<rparr>)\<rparr>
                 in (case write_item (items t) b item s1 of
                       Inl e \<Rightarrow> (Inl e, s1)
                     | Inr s2 \<Rightarrow>
                         (Inr (),
                          s2\<lparr>objects := (objects s2)(this \<mapsto>
                            t\<lparr>back_m := b, size_m := size_m t + 1\<rparr>)\<rparr>))))"

text \<open>
  \<^verbatim>\<open>pop()\<close>: the test, then the reference \<^verbatim>\<open>items[front]\<close> is taken,
  \<^verbatim>\<open>safe_increment(this->front)\<close>, \<^verbatim>\<open>--size_\<close>, and the reference is returned.
\<close>

definition pop :: "nat \<Rightarrow> 'a memory \<Rightarrow> ('a, ref) outcome" where
  "pop this s =
     (case objects s this of
        None \<Rightarrow> (Inl NoObject, s)
      | Some t \<Rightarrow>
          if size_m t = 0 then (Inl Empty, s)
          else
            (case item_ref (items t) (front t) s of
               Inl e \<Rightarrow> (Inl e, s)
             | Inr result \<Rightarrow>
                 (case safe_increment (capacity_m t) (front t) of
                    Inl e \<Rightarrow> (Inl e, s)
                  | Inr f \<Rightarrow>
                      (Inr result,
                       s\<lparr>objects := (objects s)(this \<mapsto>
                         t\<lparr>front := f, size_m := size_m t - 1\<rparr>)\<rparr>))))"

subsection \<open>Sequences of calls\<close>

text \<open>
  The values of \<open>vs\<close> pushed one after the other, stopping at the first call that does
  not return.
\<close>

fun push_all :: "nat \<Rightarrow> 'a list \<Rightarrow> 'a memory \<Rightarrow> ('a, unit) outcome" where
  "push_all this [] s = (Inr (), s)"
| "push_all this (v # vs) s =
     (case push this v s of
        (Inl e, s1) \<Rightarrow> (Inl e, s1)
      | (Inr u, s1) \<Rightarrow> push_all this vs s1)"

text \<open>
  \<open>k\<close> calls of \<open>pop\<close>, each returned reference read as soon as the call returns; the
  result is the list of the values read.
\<close>

fun pop_n :: "nat \<Rightarrow> nat \<Rightarrow> 'a memory \<Rightarrow> ('a, 'a list) outcome" where
  "pop_n this 0 s = (Inr [], s)"
| "pop_n this (Suc k) s =
     (case pop this s of
        (Inl e, s1) \<Rightarrow> (Inl e, s1)
      | (Inr r, s1) \<Rightarrow>
          (case deref s1 r of
             Inl e \<Rightarrow> (Inl e, s1)
           | Inr v \<Rightarrow>
               (case pop_n this k s1 of
                  (Inl e, s2) \<Rightarrow> (Inl e, s2)
                | (Inr vs, s2) \<Rightarrow> (Inr (v # vs), s2))))"

text \<open>
  The calls that change a queue, and a sequence of them made on one object; a call that
  throws leaves the memory it returns with, and the sequence goes on from there.
\<close>

datatype 'a mutation = Push 'a | Pop

fun mutate :: "nat \<Rightarrow> 'a mutation list \<Rightarrow> 'a memory \<Rightarrow> 'a memory" where
  "mutate this [] s = s"
| "mutate this (Push v # ms) s = mutate this ms (snd (push this v s))"
| "mutate this (Pop # ms) s = mutate this ms (snd (pop this s))"

text \<open>
  What a caller sees of a queue: the result of \<open>size()\<close>, the values read through
  the references that \<open>peek_front\<close> and \<open>peek_back\<close> return, and the values that \<open>k\<close>
  calls of \<open>pop\<close> return.
\<close>

definition front_value :: "nat \<Rightarrow> 'a memory \<Rightarrow> error + 'a" where
  "front_value this s =
     (case fst (peek_front this s) of Inl e \<Rightarrow> Inl e | Inr r \<Rightarrow> deref s r)"

definition back_value :: "nat \<Rightarrow> 'a memory \<Rightarrow> error + 'a" where
  "back_value this s =
     (case fst (peek_back this s) of Inl e \<Rightarrow> Inl e | Inr r \<Rightarrow> deref s r)"

definition observe ::
  "nat \<Rightarrow> nat \<Rightarrow> 'a memory \<Rightarrow> (error + size_t) \<times> (error + 'a) \<times> (error + 'a) \<times> (error + 'a list)" where
  "observe this k s =
     (fst (size_op this s), front_value this s, back_value this s, fst (pop_n this k s))"

section \<open>Specification\<close>

text \<open>
  The circular index advance in the words of the specification: an index is mapped to
  \<open>(index + 1) mod capacity\<close>.
\<close>

definition circular_advance :: "size_t \<Rightarrow> size_t \<Rightarrow> size_t" where
  "circular_advance cap index = (index + 1) mod cap"

text \<open>
  A well-formed queue object: its block is live and has \<open>capacity_\<close> elements, both
  indices are below the capacity, the size is at most the capacity, and \<open>back\<close> is the
  slot \<open>size_ - 1\<close> steps after \<open>front\<close> on the ring.
\<close>

definition valid_queue :: "'a memory \<Rightarrow> nat \<Rightarrow> bool" where
  "valid_queue s this =
     (case objects s this of
        None \<Rightarrow> False
      | Some t \<Rightarrow>
          (case arrays s (items t) of
             None \<Rightarrow> False
           | Some xs \<Rightarrow>
               length xs = unat (capacity_m t) \<and>
               front t < capacity_m t \<and> back_m t < capacity_m t \<and>
               size_m t \<le> capacity_m t \<and>
               unat (back_m t) =
                 (unat (front t) + unat (size_m t) + (unat (capacity_m t) - 1))
                   mod unat (capacity_m t)))"

text \<open>
  The queued values, oldest first: the \<open>size_\<close> slots from \<open>front\<close> on, walking the
  ring forward.
\<close>

definition contents :: "'a memory \<Rightarrow> nat \<Rightarrow> 'a list" where
  "contents s this =
     (case objects s this of
        None \<Rightarrow> []
      | Some t \<Rightarrow>
          (case arrays s (items t) of
             None \<Rightarrow> []
           | Some xs \<Rightarrow>
               map (\<lambda>k. xs ! ((unat (front t) + k) mod unat (capacity_m t)))
                 [0..<unat (size_m t)]))"

text \<open>
  The index part of a well-formed object: \<open>front\<close> and \<open>back\<close> lie in
  \<open>[0, capacity)\<close> and the size is at most the capacity.
\<close>

definition indices_ok :: "ConcurrentQueue \<Rightarrow> bool" where
  "indices_ok t =
     (front t < capacity_m t \<and> back_m t < capacity_m t \<and> size_m t \<le> capacity_m t)"

text \<open>
  The state invariant of the specification: every queue object of the memory has
  its indices in range.
\<close>

definition state_invariant :: "'a memory \<Rightarrow> bool" where
  "state_invariant s = (\<forall>this t. objects s this = Some t \<longrightarrow> indices_ok t)"

text \<open>
  The allocator's invariant: every live block lies below the next address handed out.
\<close>

definition wf_memory :: "'a memory \<Rightarrow> bool" where
  "wf_memory s = (\<forall>p. arrays s p \<noteq> None \<longrightarrow> p < next_array s)"

text \<open>
  Two distinct queue objects that own distinct blocks.
\<close>

definition separate :: "'a memory \<Rightarrow> nat \<Rightarrow> nat \<Rightarrow> bool" where
  "separate s A B =
     (A \<noteq> B \<and>
      (case objects s A of
         None \<Rightarrow> False
       | Some a \<Rightarrow>
           (case objects s B of None \<Rightarrow> False | Some b \<Rightarrow> items a \<noteq> items b)))"

text \<open>
  The part of the memory a member call on one object reads: the object and its block.
\<close>

definition view :: "'a memory \<Rightarrow> nat \<Rightarrow> ConcurrentQueue option \<times> 'a list option" where
  "view s this =
     (objects s this,
      case objects s this of None \<Rightarrow> None | Some t \<Rightarrow> arrays s (items t))"

subsection \<open>Memories used as examples\<close>

text \<open>
  The memory after \<^verbatim>\<open>ConcurrentQueue<int> q(2); q.push(7);\<close> with \<open>q\<close> at address 0,
  after a further \<^verbatim>\<open>q.push(8)\<close>, and after \<^verbatim>\<open>q.pop()\<close> instead.
\<close>

definition one_of_two :: "int memory" where
  "one_of_two = snd (push 0 7 (snd (ctor 0 2 0 mem0)))"

definition two_of_two :: "int memory" where
  "two_of_two = snd (push 0 8 one_of_two)"

definition drained :: "int memory" where
  "drained = snd (pop 0 one_of_two)"

text \<open>
  The memory after \<^verbatim>\<open>ConcurrentQueue<int> q(1);\<close> alone.
\<close>

definition fresh_one :: "int memory" where
  "fresh_one = snd (ctor 0 1 0 mem0)"

text \<open>
  The queue of \<open>one_of_two\<close> moved into a new object at address 1, and move-assigned
  to a queue of capacity 1 constructed at address 1.
\<close>

definition moved_into_new :: "int memory" where
  "moved_into_new = snd (move_ctor 1 0 0 one_of_two)"

definition moved_into_old :: "int memory" where
  "moved_into_old = snd (move_assign 1 0 (snd (ctor 1 1 0 one_of_two)))"

text \<open>
  The memory of \<open>one_of_two\<close> with a second queue, of capacity 1, constructed at
  address 1.
\<close>

definition two_queues :: "int memory" where
  "two_queues = snd (ctor 1 1 0 one_of_two)"

section \<open>Proofs\<close>

subsection \<open>Index arithmetic\<close>

lemma unat_succ: "(i::size_t) < n \<Longrightarrow> unat (i + 1) = Suc (unat i)"
proof -
  assume "i < n"
  then have "unat i < unat n"
    by (simp add: word_less_nat_alt)
  moreover have "unat n < 2 ^ 64"
    using unsigned_less [of n] by simp
  ultimately show "unat (i + 1) = Suc (unat i)"
    by (simp add: unat_word_ariths)
qed

lemma unat_SIZE_MAX: "unat SIZE_MAX = 2 ^ 64 - 1"
  by (simp add: SIZE_MAX_def unsigned_minus_1_eq_mask mask_eq_exp_minus_1)

lemma less_not_SIZE_MAX: "(i::size_t) < n \<Longrightarrow> i \<noteq> SIZE_MAX"
  by (auto simp: SIZE_MAX_def)

lemma unat_pred: "(n::size_t) \<noteq> 0 \<Longrightarrow> unat (n - 1) = unat n - 1"
  by (simp add: unat_minus_one)

lemma unat_mod_size_t: "unat ((a::size_t) mod b) = unat a mod unat b"
  by (simp add: unat_mod_distrib)

lemma safe_increment_in_range:
  "index < cap \<Longrightarrow> safe_increment cap index = Inr (circular_advance cap index)"
  by (auto simp: safe_increment_def circular_advance_def less_not_SIZE_MAX)

lemma unat_circular_advance:
  "index < cap \<Longrightarrow> unat (circular_advance cap index) = Suc (unat index) mod unat cap"
  by (simp add: circular_advance_def unat_mod_size_t unat_succ)

lemma sentinel_outside_invariant:
  "safe_increment 5 SIZE_MAX = Inr 1 \<and> circular_advance 5 SIZE_MAX = 0"
  by (simp add: safe_increment_def circular_advance_def SIZE_MAX_def)

lemma ring_distinct:
  fixes f k n c :: nat
  assumes "k < n" and "n < c"
  shows "(f + k) mod c \<noteq> (f + n) mod c"
proof
  assume "(f + k) mod c = (f + n) mod c"
  then have "c dvd (f + n) - (f + k)"
    by (metis mod_eq_dvd_iff_nat add_le_cancel_left assms(1) less_imp_le_nat)
  then have "c dvd n - k" by simp
  moreover have "0 < n - k" and "n - k < c" using assms by simp_all
  ultimately show False
    using dvd_imp_le by fastforce
qed

lemma push_success:
  assumes "objects s this = Some t" and "arrays s (items t) = Some xs"
    and "length xs = unat (capacity_m t)" and "back_m t < capacity_m t"
    and "size_m t \<noteq> capacity_m t"
  shows "push this v s =
     (Inr (),
      s\<lparr>objects := (objects s)(this \<mapsto>
           t\<lparr>back_m := circular_advance (capacity_m t) (back_m t),
             size_m := size_m t + 1\<rparr>),
        arrays := (arrays s)(items t \<mapsto>
           xs[unat (circular_advance (capacity_m t) (back_m t)) := v])\<rparr>)"
proof -
  have "0 < unat (capacity_m t)"
    using assms(4) by (simp add: word_less_nat_alt)
  then have "unat (circular_advance (capacity_m t) (back_m t)) < length xs"
    using assms(3,4) by (simp add: unat_circular_advance)
  then show ?thesis
    using assms by (simp add: push_def safe_increment_in_range write_item_def)
qed

lemma ring_back_advance:
  fixes f n c :: nat
  assumes "0 < c"
  shows "Suc ((f + n + (c - 1)) mod c) mod c = (f + n) mod c"
proof -
  have "Suc ((f + n + (c - 1)) mod c) mod c = Suc (f + n + (c - 1)) mod c"
    by (simp add: mod_Suc_eq)
  also have "Suc (f + n + (c - 1)) = f + n + c"
    using assms by simp
  finally show ?thesis by simp
qed

lemma ring_front_advance:
  fixes f n c :: nat
  assumes "0 < n"
  shows "(Suc f mod c + (n - 1) + (c - 1)) mod c = (f + n + (c - 1)) mod c"
proof -
  have "(Suc f mod c + ((n - 1) + (c - 1))) mod c = (Suc f + ((n - 1) + (c - 1))) mod c"
    by (rule mod_add_left_eq)
  moreover have "Suc f + ((n - 1) + (c - 1)) = f + n + (c - 1)"
    using assms by simp
  ultimately show ?thesis by (simp add: add.assoc)
qed

lemma ring_contents_push:
  fixes f n c :: nat
  assumes "n < c" and "length xs = c"
  shows "map (\<lambda>k. xs[(f + n) mod c := v] ! ((f + k) mod c)) [0..<Suc n] =
         map (\<lambda>k. xs ! ((f + k) mod c)) [0..<n] @ [v]"
proof -
  have "(f + n) mod c < length xs"
    using assms by simp
  moreover have "\<forall>k<n. (f + n) mod c \<noteq> (f + k) mod c"
    using assms(1) ring_distinct [of _ n c f] by metis
  ultimately show ?thesis
    by (simp add: nth_list_update)
qed

lemma ring_contents_pop:
  fixes f n c :: nat
  shows "map (\<lambda>k. xs ! ((Suc f mod c + k) mod c)) [0..<n - 1] =
         tl (map (\<lambda>k. xs ! ((f + k) mod c)) [0..<n])"
proof -
  have "tl (map (\<lambda>k. xs ! ((f + k) mod c)) [0..<n]) =
        map (\<lambda>k. xs ! ((f + k) mod c)) (map Suc [0..<n - 1])"
    by (cases n) (simp_all add: map_Suc_upt upt_conv_Cons del: upt_Suc)
  also have "\<dots> = map (\<lambda>k. xs ! ((f + Suc k) mod c)) [0..<n - 1]"
    by (simp add: comp_def)
  also have "\<dots> = map (\<lambda>k. xs ! ((Suc f mod c + k) mod c)) [0..<n - 1]"
    by (simp add: mod_add_left_eq)
  finally show ?thesis by simp
qed

subsection \<open>Push and pop on a well-formed queue\<close>

lemma valid_queueD:
  assumes "valid_queue s this"
  obtains t xs where "objects s this = Some t" and "arrays s (items t) = Some xs"
    and "length xs = unat (capacity_m t)" and "front t < capacity_m t"
    and "back_m t < capacity_m t" and "size_m t \<le> capacity_m t"
    and "unat (back_m t) =
           (unat (front t) + unat (size_m t) + (unat (capacity_m t) - 1))
             mod unat (capacity_m t)"
  using assms by (auto simp: valid_queue_def split: option.splits)

lemma length_contents:
  "objects s this = Some t \<Longrightarrow> arrays s (items t) = Some xs \<Longrightarrow>
   length (contents s this) = unat (size_m t)"
  by (simp add: contents_def)

lemma push_valid:
  assumes "valid_queue s this" and "objects s this = Some t"
    and "size_m t \<noteq> capacity_m t"
  shows "\<exists>s'. push this v s = (Inr (), s') \<and> valid_queue s' this \<and>
           contents s' this = contents s this @ [v] \<and>
           objects s' this =
             Some (t\<lparr>back_m := circular_advance (capacity_m t) (back_m t),
                     size_m := size_m t + 1\<rparr>)"
proof -
  from assms(1,2) obtain xs where xs: "arrays s (items t) = Some xs"
    and len: "length xs = unat (capacity_m t)" and f: "front t < capacity_m t"
    and b: "back_m t < capacity_m t" and n: "size_m t \<le> capacity_m t"
    and ring: "unat (back_m t) =
           (unat (front t) + unat (size_m t) + (unat (capacity_m t) - 1))
             mod unat (capacity_m t)"
    by (auto elim!: valid_queueD)
  let ?b = "circular_advance (capacity_m t) (back_m t)"
  let ?s' = "s\<lparr>objects := (objects s)(this \<mapsto> t\<lparr>back_m := ?b, size_m := size_m t + 1\<rparr>),
        arrays := (arrays s)(items t \<mapsto> xs[unat ?b := v])\<rparr>"
  have step: "push this v s = (Inr (), ?s')"
    using assms(2) xs len b assms(3) by (rule push_success)
  have lt: "size_m t < capacity_m t"
    using n assms(3) by simp
  have n': "unat (size_m t + 1) = Suc (unat (size_m t))"
    using lt by (rule unat_succ)
  have c0: "0 < unat (capacity_m t)"
    using b by (simp add: word_less_nat_alt)
  have b': "unat ?b = (unat (front t) + unat (size_m t)) mod unat (capacity_m t)"
    by (simp only: unat_circular_advance [OF b] ring ring_back_advance [OF c0])
  have nlt: "unat (size_m t) < unat (capacity_m t)"
    using lt by (simp add: word_less_nat_alt)
  have "?b < capacity_m t"
    using c0 b' by (simp add: word_less_nat_alt)
  moreover have "size_m t + 1 \<le> capacity_m t"
    using nlt n' by (simp add: word_le_nat_alt)
  moreover have "unat ?b =
      (unat (front t) + unat (size_m t + 1) + (unat (capacity_m t) - 1))
        mod unat (capacity_m t)"
    using c0 by (simp add: b' n')
  ultimately have "valid_queue ?s' this"
    using len f by (simp add: valid_queue_def)
  moreover have "contents ?s' this = contents s this @ [v]"
    using assms(2) xs nlt len
    by (simp add: contents_def b' n' ring_contents_push del: upt_Suc)
  ultimately show ?thesis
    using step by simp
qed

lemma pop_success:
  assumes "objects s this = Some t" and "arrays s (items t) = Some xs"
    and "length xs = unat (capacity_m t)" and "front t < capacity_m t"
    and "size_m t \<noteq> 0"
  shows "pop this s =
     (Inr (items t, front t),
      s\<lparr>objects := (objects s)(this \<mapsto>
           t\<lparr>front := circular_advance (capacity_m t) (front t),
             size_m := size_m t - 1\<rparr>)\<rparr>)"
proof -
  have "unat (front t) < length xs"
    using assms(3,4) by (simp add: word_less_nat_alt)
  then show ?thesis
    using assms by (simp add: pop_def safe_increment_in_range item_ref_def)
qed

lemma pop_valid:
  assumes "valid_queue s this" and "objects s this = Some t" and "size_m t \<noteq> 0"
  shows "\<exists>r s'. pop this s = (Inr r, s') \<and> valid_queue s' this \<and>
           deref s' r = Inr (hd (contents s this)) \<and>
           contents s' this = tl (contents s this) \<and>
           objects s' this =
             Some (t\<lparr>front := circular_advance (capacity_m t) (front t),
                     size_m := size_m t - 1\<rparr>)"
proof -
  from assms(1,2) obtain xs where xs: "arrays s (items t) = Some xs"
    and len: "length xs = unat (capacity_m t)" and f: "front t < capacity_m t"
    and b: "back_m t < capacity_m t" and n: "size_m t \<le> capacity_m t"
    and ring: "unat (back_m t) =
           (unat (front t) + unat (size_m t) + (unat (capacity_m t) - 1))
             mod unat (capacity_m t)"
    by (auto elim!: valid_queueD)
  let ?f = "circular_advance (capacity_m t) (front t)"
  let ?s' = "s\<lparr>objects := (objects s)(this \<mapsto> t\<lparr>front := ?f, size_m := size_m t - 1\<rparr>)\<rparr>"
  have step: "pop this s = (Inr (items t, front t), ?s')"
    using assms(2) xs len f assms(3) by (rule pop_success)
  have n': "unat (size_m t - 1) = unat (size_m t) - 1"
    using assms(3) by (rule unat_pred)
  have npos: "0 < unat (size_m t)"
    using assms(3) by (simp add: unat_gt_0)
  have flt: "unat (front t) < unat (capacity_m t)"
    using f by (simp add: word_less_nat_alt)
  have f': "unat ?f = Suc (unat (front t)) mod unat (capacity_m t)"
    using f by (rule unat_circular_advance)
  have "?f < capacity_m t"
    using flt f' by (simp add: word_less_nat_alt)
  moreover have "size_m t - 1 \<le> capacity_m t"
    using n n' by (simp add: word_le_nat_alt)
  moreover have "unat (back_m t) =
      (unat ?f + unat (size_m t - 1) + (unat (capacity_m t) - 1))
        mod unat (capacity_m t)"
    by (simp only: f' n' ring ring_front_advance [OF npos])
  ultimately have "valid_queue ?s' this"
    using len b xs by (simp add: valid_queue_def)
  moreover have "contents ?s' this = tl (contents s this)"
  proof -
    have "contents ?s' this =
        map (\<lambda>k. xs ! ((unat ?f + k) mod unat (capacity_m t))) [0..<unat (size_m t - 1)]"
      using xs by (simp add: contents_def)
    moreover have "contents s this =
        map (\<lambda>k. xs ! ((unat (front t) + k) mod unat (capacity_m t))) [0..<unat (size_m t)]"
      using assms(2) xs by (simp add: contents_def)
    ultimately show ?thesis
      by (simp only: f' n' ring_contents_pop)
  qed
  moreover have "deref ?s' (items t, front t) = Inr (hd (contents s this))"
    using assms(2) xs len flt npos
    by (simp add: deref_def read_item_def contents_def hd_map upt_conv_Cons)
  ultimately show ?thesis
    using step by simp
qed

lemma new_array_Inr:
  assumes "unat n \<le> free_store s"
  shows "new_array n dflt s =
     Inr (next_array s,
          s\<lparr>arrays := (arrays s)(next_array s \<mapsto> replicate (unat n) dflt),
            next_array := Suc (next_array s),
            free_store := free_store s - unat n\<rparr>)"
  using assms by (simp add: new_array_def)

lemma new_array_Inl:
  assumes "free_store s < unat n"
  shows "new_array n dflt s = Inl BadAlloc"
  using assms by (simp add: new_array_def)

lemma new_array_objects:
  assumes "new_array n dflt s = Inr (p, s')"
  shows "objects s' = objects s" and "p = next_array s"
  using assms by (auto simp: new_array_def split: if_splits)

lemma ctor_valid:
  assumes "cap \<noteq> 0" and "unat cap \<le> free_store s"
  shows "\<exists>s'. ctor this cap dflt s = (Inr (), s') \<and> valid_queue s' this \<and>
           contents s' this = [] \<and>
           objects s' this =
             Some \<lparr>items = next_array s, capacity_m = cap, size_m = 0, front = 0,
                   back_m = cap - 1\<rparr>"
proof -
  let ?s' = "s\<lparr>arrays := (arrays s)(next_array s \<mapsto> replicate (unat cap) dflt),
        next_array := Suc (next_array s),
        free_store := free_store s - unat cap,
        objects := (objects s)(this \<mapsto>
          \<lparr>items = next_array s, capacity_m = cap, size_m = 0, front = 0,
           back_m = cap - 1\<rparr>)\<rparr>"
  have step: "ctor this cap dflt s = (Inr (), ?s')"
    using assms by (simp add: ctor_def new_array_Inr)
  have c0: "0 < unat cap"
    using assms(1) by (simp add: unat_gt_0)
  have b: "unat (cap - 1) = unat cap - 1"
    using assms(1) by (rule unat_pred)
  have "0 < cap"
    using assms(1) by (simp add: word_neq_0_conv)
  moreover have "cap - 1 < cap"
    using c0 b by (simp add: word_less_nat_alt)
  ultimately have "valid_queue ?s' this"
    using c0 b by (simp add: valid_queue_def)
  moreover have "contents ?s' this = []"
    by (simp add: contents_def)
  ultimately show ?thesis
    using step by simp
qed

lemma ctor_SIZE_MAX:
  assumes "free_store s < 2 ^ 64 - 1"
  shows "ctor this SIZE_MAX dflt s = (Inl BadAlloc, s)"
proof -
  have "SIZE_MAX \<noteq> (0::size_t)"
    by (simp add: SIZE_MAX_def)
  moreover have "free_store s < unat SIZE_MAX"
    using assms by (simp only: unat_SIZE_MAX)
  ultimately show ?thesis
    by (simp add: ctor_def new_array_Inl)
qed

lemma push_all_valid:
  assumes "valid_queue s this" and "objects s this = Some t"
    and "unat (size_m t) + length vs \<le> unat (capacity_m t)"
  shows "\<exists>s' t'. push_all this vs s = (Inr (), s') \<and> valid_queue s' this \<and>
           contents s' this = contents s this @ vs \<and>
           objects s' this = Some t' \<and> capacity_m t' = capacity_m t \<and>
           unat (size_m t') = unat (size_m t) + length vs"
  using assms
proof (induction vs arbitrary: s t)
  case Nil
  then show ?case by simp
next
  case (Cons v vs)
  from Cons.prems(3) have lt: "unat (size_m t) < unat (capacity_m t)"
    by simp
  then have ne: "size_m t \<noteq> capacity_m t"
    by auto
  from lt have n': "unat (size_m t + 1) = Suc (unat (size_m t))"
    by (simp add: unat_succ word_less_nat_alt)
  let ?t1 = "t\<lparr>back_m := circular_advance (capacity_m t) (back_m t),
                size_m := size_m t + 1\<rparr>"
  from push_valid [OF Cons.prems(1,2) ne, of v]
  obtain s1 where step: "push this v s = (Inr (), s1)" and v1: "valid_queue s1 this"
    and c1: "contents s1 this = contents s this @ [v]"
    and o1: "objects s1 this = Some ?t1"
    by blast
  have "unat (size_m ?t1) + length vs \<le> unat (capacity_m ?t1)"
    using Cons.prems(3) n' by simp
  from Cons.IH [OF v1 o1 this]
  obtain s' t' where "push_all this vs s1 = (Inr (), s')" and "valid_queue s' this"
    and "contents s' this = contents s1 this @ vs"
    and "objects s' this = Some t'" and "capacity_m t' = capacity_m ?t1"
    and "unat (size_m t') = unat (size_m ?t1) + length vs"
    by blast
  then show ?case
    using step c1 n' by simp
qed

lemma pop_n_valid:
  assumes "valid_queue s this" and "objects s this = Some t"
    and "k \<le> unat (size_m t)"
  shows "\<exists>s' t'. pop_n this k s = (Inr (take k (contents s this)), s') \<and>
           valid_queue s' this \<and> contents s' this = drop k (contents s this) \<and>
           objects s' this = Some t' \<and> capacity_m t' = capacity_m t \<and>
           unat (size_m t') = unat (size_m t) - k"
  using assms
proof (induction k arbitrary: s t)
  case 0
  then show ?case by simp
next
  case (Suc k)
  from Suc.prems(3) have ne: "size_m t \<noteq> 0"
    by auto
  then have n': "unat (size_m t - 1) = unat (size_m t) - 1"
    by (rule unat_pred)
  obtain xs where xs: "arrays s (items t) = Some xs"
    using Suc.prems(1,2) by (auto elim!: valid_queueD)
  have len: "length (contents s this) = unat (size_m t)"
    using Suc.prems(2) xs by (rule length_contents)
  then have nonempty: "contents s this \<noteq> []"
    using Suc.prems(3) by auto
  let ?t1 = "t\<lparr>front := circular_advance (capacity_m t) (front t),
                size_m := size_m t - 1\<rparr>"
  from pop_valid [OF Suc.prems(1,2) ne]
  obtain r s1 where step: "pop this s = (Inr r, s1)" and v1: "valid_queue s1 this"
    and d1: "deref s1 r = Inr (hd (contents s this))"
    and c1: "contents s1 this = tl (contents s this)"
    and o1: "objects s1 this = Some ?t1"
    by blast
  have "k \<le> unat (size_m ?t1)"
    using Suc.prems(3) n' by simp
  from Suc.IH [OF v1 o1 this]
  obtain s' t' where "pop_n this k s1 = (Inr (take k (contents s1 this)), s')"
    and "valid_queue s' this" and "contents s' this = drop k (contents s1 this)"
    and "objects s' this = Some t'" and "capacity_m t' = capacity_m ?t1"
    and "unat (size_m t') = unat (size_m ?t1) - k"
    by blast
  moreover have "hd (contents s this) # take k (tl (contents s this)) =
      take (Suc k) (contents s this)"
    using nonempty by (cases "contents s this") simp_all
  ultimately show ?case
    using step d1 c1 n' by (simp add: drop_Suc)
qed

text \<open>
  On a well-formed queue \<open>push\<close> and \<open>pop\<close> return or throw \<open>Full\<close> or \<open>Empty\<close>, never
  reach undefined behaviour, and leave the queue well-formed.
\<close>

lemma push_keeps_valid:
  assumes "valid_queue s this"
  shows "valid_queue (snd (push this v s)) this \<and>
     (fst (push this v s) = Inr () \<or> fst (push this v s) = Inl Full)"
proof -
  from assms obtain t where t: "objects s this = Some t"
    by (auto elim!: valid_queueD)
  show ?thesis
  proof (cases "size_m t = capacity_m t")
    case True
    then show ?thesis using assms t by (simp add: push_def)
  next
    case False
    from push_valid [OF assms t False, of v] show ?thesis by auto
  qed
qed

lemma pop_keeps_valid:
  assumes "valid_queue s this"
  shows "valid_queue (snd (pop this s)) this \<and>
     ((\<exists>r. fst (pop this s) = Inr r) \<or> fst (pop this s) = Inl Empty)"
proof -
  from assms obtain t where t: "objects s this = Some t"
    by (auto elim!: valid_queueD)
  show ?thesis
  proof (cases "size_m t = 0")
    case True
    then show ?thesis using assms t by (simp add: pop_def)
  next
    case False
    from pop_valid [OF assms t False] show ?thesis by auto
  qed
qed

lemma mutate_keeps_valid: "valid_queue s this \<Longrightarrow> valid_queue (mutate this ms s) this"
proof (induction ms arbitrary: s)
  case Nil
  then show ?case by simp
next
  case (Cons m ms)
  show ?case
  proof (cases m)
    case (Push v)
    with Cons.IH [of "snd (push this v s)"] push_keeps_valid [OF Cons.prems, of v]
    show ?thesis by simp
  next
    case Pop
    with Cons.IH [of "snd (pop this s)"] pop_keeps_valid [OF Cons.prems]
    show ?thesis by simp
  qed
qed

subsection \<open>The capacity boundary\<close>

lemma full_boundary:
  assumes "valid_queue s this" and "objects s this = Some t"
    and "size_m t = capacity_m t"
  shows "\<exists>r s1 s2. full this s = (Inr True, s) \<and> push this v s = (Inl Full, s) \<and>
           pop this s = (Inr r, s1) \<and> push this w s1 = (Inr (), s2) \<and>
           push this x s2 = (Inl Full, s2)"
proof -
  have c0: "capacity_m t \<noteq> 0"
    using assms(1,2) by (auto elim!: valid_queueD)
  then have ne: "size_m t \<noteq> 0"
    using assms(3) by simp
  let ?t1 = "t\<lparr>front := circular_advance (capacity_m t) (front t),
                size_m := size_m t - 1\<rparr>"
  from pop_valid [OF assms(1,2) ne]
  obtain r s1 where p: "pop this s = (Inr r, s1)" and v1: "valid_queue s1 this"
    and o1: "objects s1 this = Some ?t1"
    by blast
  have "size_m ?t1 \<noteq> capacity_m ?t1"
    using assms(3) by simp
  from push_valid [OF v1 o1 this, of w]
  obtain s2 where q: "push this w s1 = (Inr (), s2)"
    and o2: "objects s2 this =
      Some (?t1\<lparr>back_m := circular_advance (capacity_m ?t1) (back_m ?t1),
                size_m := size_m ?t1 + 1\<rparr>)"
    by blast
  have "push this x s2 = (Inl Full, s2)"
    using o2 assms(3) by (simp add: push_def)
  moreover have "full this s = (Inr True, s)" and "push this v s = (Inl Full, s)"
    using assms(2,3) by (simp_all add: full_def push_def)
  ultimately show ?thesis
    using p q by blast
qed

subsection \<open>The index invariant\<close>

lemma write_item_objects: "write_item p i v s = Inr s' \<Longrightarrow> objects s' = objects s"
  by (auto simp: write_item_def split: option.splits if_splits)

lemma delete_array_objects: "delete_array p s = Inr s' \<Longrightarrow> objects s' = objects s"
  by (auto simp: delete_array_def split: option.splits)

lemma copy_items_objects: "copy_items dst src n i s = Inr s' \<Longrightarrow> objects s' = objects s"
proof (induction dst src n i s rule: copy_items.induct)
  case (1 dst src n i s)
  show ?case
  proof (cases "i < n")
    case True
    with "1.prems" obtain v s1 where r: "read_item src i s = Inr v"
      and w: "write_item dst i v s = Inr s1"
      and rest: "copy_items dst src n (i + 1) s1 = Inr s'"
      by (subst (asm) copy_items.simps) (auto split: sum.splits)
    from "1.IH" [OF True r w rest] write_item_objects [OF w] show ?thesis
      by simp
  next
    case False
    with "1.prems" show ?thesis
      by (subst (asm) copy_items.simps) simp
  qed
qed

lemma safe_increment_less: "safe_increment cap val = Inr b \<Longrightarrow> b < cap"
proof -
  assume a: "safe_increment cap val = Inr b"
  then have "cap \<noteq> 0"
    by (auto simp: safe_increment_def Let_def split: if_splits)
  then have "0 < unat cap" by (simp add: unat_gt_0)
  then have "x mod cap < cap" for x
    by (simp add: word_less_nat_alt unat_mod_size_t)
  moreover from a \<open>cap \<noteq> 0\<close>
  have "((if val = SIZE_MAX then 0 else val) + 1) mod cap = b"
    by (simp only: safe_increment_def Let_def if_False sum.inject)
  ultimately show ?thesis
    by blast
qed

lemma state_invariantD: "state_invariant s \<Longrightarrow> objects s this = Some t \<Longrightarrow> indices_ok t"
  by (simp add: state_invariant_def)

lemma state_invariant_update:
  assumes "state_invariant s" and "indices_ok t" and "objects s' = (objects s)(this \<mapsto> t)"
  shows "state_invariant s'"
  using assms by (simp add: state_invariant_def)

lemma state_invariant_same:
  assumes "state_invariant s" and "objects s' = objects s"
  shows "state_invariant s'"
  using assms by (simp add: state_invariant_def)

lemma ctor_invariant:
  assumes "state_invariant s"
  shows "state_invariant (snd (ctor this cap dflt s))"
proof (cases "cap = 0")
  case True
  then show ?thesis using assms by (simp add: ctor_def)
next
  case False
  then have "0 < unat cap" by (simp add: unat_gt_0)
  moreover have "unat (cap - 1) = unat cap - 1"
    using False by (rule unat_pred)
  ultimately have ok: "indices_ok
      \<lparr>items = next_array s, capacity_m = cap, size_m = 0, front = 0, back_m = cap - 1\<rparr>"
    by (simp add: indices_ok_def word_less_nat_alt)
  show ?thesis
  proof (cases "free_store s < unat cap")
    case True
    then show ?thesis
      using assms False by (simp add: ctor_def new_array_Inl)
  next
    case enough: False
    then have "objects (snd (ctor this cap dflt s)) = (objects s)(this \<mapsto>
      \<lparr>items = next_array s, capacity_m = cap, size_m = 0, front = 0, back_m = cap - 1\<rparr>)"
      using False by (simp add: ctor_def new_array_Inr)
    with ok show ?thesis
      by (rule state_invariant_update [OF assms])
  qed
qed

lemma copy_fields_ok:
  "indices_ok q \<Longrightarrow>
   indices_ok \<lparr>items = p, capacity_m = capacity_m q, size_m = size_m q, front = front q,
     back_m = back_m q\<rparr>"
  by (simp add: indices_ok_def)

lemma copy_ctor_objects:
  assumes "objects s queue = Some q"
  shows "objects (snd (copy_ctor this queue dflt s)) = objects s \<or>
     objects (snd (copy_ctor this queue dflt s)) = (objects s)(this \<mapsto>
      \<lparr>items = next_array s, capacity_m = capacity_m q, size_m = size_m q,
       front = front q, back_m = back_m q\<rparr>)"
proof (cases "free_store s < unat (capacity_m q)")
  case True
  then show ?thesis
    using assms by (simp add: copy_ctor_def new_array_Inl)
next
  case False
  then show ?thesis
    using assms
    by (auto simp: copy_ctor_def new_array_Inr Let_def split: sum.splits
        dest!: copy_items_objects)
qed

lemma move_ctor_objects:
  assumes "objects s queue = Some q"
  shows "objects (snd (move_ctor this queue dflt s)) = objects s \<or>
     objects (snd (move_ctor this queue dflt s)) = (objects s)(this \<mapsto>
      \<lparr>items = next_array s, capacity_m = capacity_m q, size_m = size_m q,
       front = front q, back_m = back_m q\<rparr>)"
proof (cases "free_store s < unat (capacity_m q)")
  case True
  then show ?thesis
    using assms by (simp add: move_ctor_def new_array_Inl)
next
  case False
  then show ?thesis
    using assms
    by (auto simp: move_ctor_def new_array_Inr Let_def split: sum.splits
        dest!: copy_items_objects delete_array_objects)
qed

lemma copy_ctor_invariant:
  assumes "state_invariant s"
  shows "state_invariant (snd (copy_ctor this queue dflt s))"
proof (cases "objects s queue")
  case None
  then show ?thesis using assms by (simp add: copy_ctor_def)
next
  case (Some q)
  then have "indices_ok q" using assms by (simp add: state_invariantD)
  then show ?thesis
    using copy_ctor_objects [OF Some, of this dflt]
    by (auto intro: state_invariant_same [OF assms]
        state_invariant_update [OF assms copy_fields_ok])
qed

lemma move_ctor_invariant:
  assumes "state_invariant s"
  shows "state_invariant (snd (move_ctor this queue dflt s))"
proof (cases "objects s queue")
  case None
  then show ?thesis using assms by (simp add: move_ctor_def)
next
  case (Some q)
  then have "indices_ok q" using assms by (simp add: state_invariantD)
  then show ?thesis
    using move_ctor_objects [OF Some, of this dflt]
    by (auto intro: state_invariant_same [OF assms]
        state_invariant_update [OF assms copy_fields_ok])
qed

lemma dtor_invariant:
  assumes "state_invariant s"
  shows "state_invariant (snd (dtor this s))"
  using assms
  by (auto simp: dtor_def state_invariant_def split: option.splits sum.splits
      dest!: delete_array_objects)

lemma copy_assign_objects:
  assumes "objects s queue = Some q"
  shows "objects (snd (copy_assign this queue dflt s)) = objects s \<or>
     (\<exists>p. objects (snd (copy_assign this queue dflt s)) = (objects s)(this \<mapsto>
      \<lparr>items = p, capacity_m = capacity_m q, size_m = size_m q,
       front = front q, back_m = back_m q\<rparr>))"
  using assms
  by (auto simp: copy_assign_def Let_def split: option.splits sum.splits prod.splits
      dest!: copy_items_objects delete_array_objects new_array_objects(1))

lemma move_assign_objects:
  assumes "objects s queue = Some q"
  shows "objects (snd (move_assign this queue s)) = objects s \<or>
     (\<exists>p. objects (snd (move_assign this queue s)) = (objects s)(this \<mapsto>
      \<lparr>items = p, capacity_m = capacity_m q, size_m = size_m q,
       front = front q, back_m = back_m q\<rparr>))"
  using assms
  by (auto simp: move_assign_def split: option.splits sum.splits
      dest!: delete_array_objects)

lemma copy_assign_invariant:
  assumes "state_invariant s"
  shows "state_invariant (snd (copy_assign this queue dflt s))"
proof (cases "objects s queue")
  case None
  then show ?thesis using assms by (simp add: copy_assign_def split: option.splits)
next
  case (Some q)
  then have "indices_ok q" using assms by (simp add: state_invariantD)
  then show ?thesis
    using copy_assign_objects [OF Some, of this dflt]
    by (auto intro: state_invariant_same [OF assms]
        state_invariant_update [OF assms copy_fields_ok])
qed

lemma move_assign_invariant:
  assumes "state_invariant s"
  shows "state_invariant (snd (move_assign this queue s))"
proof (cases "objects s queue")
  case None
  then show ?thesis using assms by (simp add: move_assign_def split: option.splits)
next
  case (Some q)
  then have "indices_ok q" using assms by (simp add: state_invariantD)
  then show ?thesis
    using move_assign_objects [OF Some, of this]
    by (auto intro: state_invariant_same [OF assms]
        state_invariant_update [OF assms copy_fields_ok])
qed

lemma push_objects:
  assumes "objects s this = Some t"
  shows "objects (snd (push this v s)) = objects s \<or>
     (\<exists>b. b < capacity_m t \<and>
        objects (snd (push this v s)) = (objects s)(this \<mapsto> t\<lparr>back_m := b\<rparr>)) \<or>
     (\<exists>b. b < capacity_m t \<and> size_m t \<noteq> capacity_m t \<and>
        objects (snd (push this v s)) =
          (objects s)(this \<mapsto> t\<lparr>back_m := b, size_m := size_m t + 1\<rparr>))"
proof (cases "size_m t = capacity_m t")
  case True
  then show ?thesis using assms by (simp add: push_def)
next
  case full: False
  show ?thesis
  proof (cases "safe_increment (capacity_m t) (back_m t)")
    case (Inl e)
    then show ?thesis using assms full by (simp add: push_def)
  next
    case (Inr b)
    then have b: "b < capacity_m t" by (rule safe_increment_less)
    let ?s1 = "s\<lparr>objects := (objects s)(this \<mapsto> t\<lparr>back_m := b\<rparr>)\<rparr>"
    show ?thesis
    proof (cases "write_item (items t) b v ?s1")
      case (Inl e)
      then have "objects (snd (push this v s)) = (objects s)(this \<mapsto> t\<lparr>back_m := b\<rparr>)"
        using assms full Inr by (simp add: push_def)
      then show ?thesis using b by blast
    next
      case w: (Inr s2)
      then have "objects (snd (push this v s)) =
          (objects s)(this \<mapsto> t\<lparr>back_m := b, size_m := size_m t + 1\<rparr>)"
        using assms full Inr write_item_objects [OF w] by (simp add: push_def)
      then show ?thesis using b full by blast
    qed
  qed
qed

lemma push_invariant:
  assumes "state_invariant s"
  shows "state_invariant (snd (push this v s))"
proof (cases "objects s this")
  case None
  then show ?thesis using assms by (simp add: push_def)
next
  case (Some t)
  then have ok: "indices_ok t" using assms by (simp add: state_invariantD)
  have moved: "indices_ok (t\<lparr>back_m := b\<rparr>)" if "b < capacity_m t" for b
    using ok that by (simp add: indices_ok_def)
  have stored: "indices_ok (t\<lparr>back_m := b, size_m := size_m t + 1\<rparr>)"
    if "b < capacity_m t" and "size_m t \<noteq> capacity_m t" for b
  proof -
    from ok that(2) have lt: "size_m t < capacity_m t"
      by (auto simp: indices_ok_def)
    then have "unat (size_m t + 1) = Suc (unat (size_m t))"
      by (rule unat_succ)
    then have "size_m t + 1 \<le> capacity_m t"
      using lt by (simp add: word_le_nat_alt word_less_nat_alt)
    then show ?thesis
      using ok that(1) by (simp add: indices_ok_def)
  qed
  from push_objects [OF Some, of v] show ?thesis
    by (auto intro: state_invariant_same [OF assms]
        state_invariant_update [OF assms moved] state_invariant_update [OF assms stored])
qed

lemma pop_objects:
  assumes "objects s this = Some t"
  shows "objects (snd (pop this s)) = objects s \<or>
     (\<exists>f. f < capacity_m t \<and> size_m t \<noteq> 0 \<and>
        objects (snd (pop this s)) =
          (objects s)(this \<mapsto> t\<lparr>front := f, size_m := size_m t - 1\<rparr>))"
  using assms
  by (auto simp: pop_def split: sum.splits dest!: safe_increment_less)

lemma pop_invariant:
  assumes "state_invariant s"
  shows "state_invariant (snd (pop this s))"
proof (cases "objects s this")
  case None
  then show ?thesis using assms by (simp add: pop_def)
next
  case (Some t)
  then have ok: "indices_ok t" using assms by (simp add: state_invariantD)
  have popped: "indices_ok (t\<lparr>front := f, size_m := size_m t - 1\<rparr>)"
    if "f < capacity_m t" and "size_m t \<noteq> 0" for f
  proof -
    have "unat (size_m t - 1) = unat (size_m t) - 1"
      using that(2) by (rule unat_pred)
    moreover from ok have "unat (size_m t) \<le> unat (capacity_m t)"
      by (simp add: indices_ok_def word_le_nat_alt)
    ultimately have "size_m t - 1 \<le> capacity_m t"
      by (simp add: word_le_nat_alt)
    then show ?thesis
      using ok that(1) by (simp add: indices_ok_def)
  qed
  from pop_objects [OF Some] show ?thesis
    by (auto intro: state_invariant_same [OF assms]
        state_invariant_update [OF assms popped])
qed

subsection \<open>The allocator\<close>

lemma wf_memory_mem0: "wf_memory mem0"
  by (simp add: wf_memory_def mem0_def)

lemma wf_memory_objects:
  "wf_memory s \<Longrightarrow> wf_memory (s\<lparr>objects := os\<rparr>)"
  by (simp add: wf_memory_def)

lemma wf_memory_new_array:
  "wf_memory s \<Longrightarrow> new_array n dflt s = Inr (p, s') \<Longrightarrow> wf_memory s'"
  by (auto simp: wf_memory_def new_array_def less_Suc_eq split: if_splits)

lemma wf_memory_delete_array:
  "wf_memory s \<Longrightarrow> delete_array p s = Inr s' \<Longrightarrow> wf_memory s'"
  by (auto simp: wf_memory_def delete_array_def split: option.splits if_splits)

lemma wf_memory_write_item:
  "wf_memory s \<Longrightarrow> write_item p i v s = Inr s' \<Longrightarrow> wf_memory s'"
  by (auto simp: wf_memory_def write_item_def split: option.splits if_splits)

lemma wf_memory_copy_items:
  "wf_memory s \<Longrightarrow> copy_items dst src n i s = Inr s' \<Longrightarrow> wf_memory s'"
proof (induction dst src n i s rule: copy_items.induct)
  case (1 dst src n i s)
  show ?case
  proof (cases "i < n")
    case True
    with "1.prems"(2) obtain v s1 where r: "read_item src i s = Inr v"
      and w: "write_item dst i v s = Inr s1"
      and rest: "copy_items dst src n (i + 1) s1 = Inr s'"
      by (subst (asm) copy_items.simps) (auto split: sum.splits)
    from "1.prems"(1) w have "wf_memory s1"
      by (rule wf_memory_write_item)
    then show ?thesis
      using rest by (rule "1.IH" [OF True r w])
  next
    case False
    with "1.prems" show ?thesis
      by (subst (asm) copy_items.simps) simp
  qed
qed

lemma wf_memory_preserved:
  assumes "wf_memory s"
  shows "wf_memory (snd (ctor this cap dflt s))"
    and "wf_memory (snd (copy_ctor this queue dflt s))"
    and "wf_memory (snd (move_ctor this queue dflt s))"
    and "wf_memory (snd (copy_assign this queue dflt s))"
    and "wf_memory (snd (move_assign this queue s))"
    and "wf_memory (snd (dtor this s))"
    and "wf_memory (snd (push this v s))"
    and "wf_memory (snd (pop this s))"
proof -
  show "wf_memory (snd (ctor this cap dflt s))"
    using assms
    by (auto simp: ctor_def split: sum.splits
        intro!: wf_memory_objects elim!: wf_memory_new_array [rotated])
  show "wf_memory (snd (copy_ctor this queue dflt s))"
    using assms
    by (auto simp: copy_ctor_def Let_def split: option.splits sum.splits
        intro!: wf_memory_objects
        elim!: wf_memory_copy_items [rotated] wf_memory_new_array [rotated])
  show "wf_memory (snd (move_ctor this queue dflt s))"
    using assms
    by (auto simp: move_ctor_def Let_def split: option.splits sum.splits
        intro!: wf_memory_objects
        elim!: wf_memory_copy_items [rotated] wf_memory_delete_array [rotated]
          wf_memory_new_array [rotated])
  show "wf_memory (snd (copy_assign this queue dflt s))"
    using assms
    by (auto simp: copy_assign_def Let_def split: option.splits sum.splits
        intro!: wf_memory_objects
        elim!: wf_memory_copy_items [rotated] wf_memory_delete_array [rotated]
          wf_memory_new_array [rotated])
  show "wf_memory (snd (move_assign this queue s))"
    using assms
    by (auto simp: move_assign_def split: option.splits sum.splits
        intro!: wf_memory_objects elim!: wf_memory_delete_array [rotated])
  show "wf_memory (snd (dtor this s))"
    using assms
    by (auto simp: dtor_def split: option.splits sum.splits
        intro!: wf_memory_objects elim!: wf_memory_delete_array [rotated])
  show "wf_memory (snd (push this v s))"
    using assms
    by (auto simp: push_def Let_def split: option.splits sum.splits
        intro!: wf_memory_objects elim!: wf_memory_write_item [rotated])
  show "wf_memory (snd (pop this s))"
    using assms
    by (auto simp: pop_def split: option.splits sum.splits intro!: wf_memory_objects)
qed

subsection \<open>Copies\<close>

lemma copy_items_result:
  assumes "arrays s src = Some xs" and "arrays s dst = Some ys"
    and "length xs = unat n" and "length ys = unat n" and "dst \<noteq> src" and "i \<le> n"
  shows "copy_items dst src n i s =
     Inr (s\<lparr>arrays := (arrays s)(dst \<mapsto> take (unat i) ys @ drop (unat i) xs)\<rparr>)"
  using assms
proof (induction dst src n i s arbitrary: ys rule: copy_items.induct)
  case (1 dst src n i s)
  show ?case
  proof (cases "i < n")
    case True
    then have i: "unat i < unat n" by (simp add: word_less_nat_alt)
    have i1: "unat (i + 1) = Suc (unat i)"
      using True by (rule unat_succ)
    have le: "i + 1 \<le> n"
      using i i1 by (simp add: word_le_nat_alt)
    let ?v = "xs ! unat i"
    let ?s1 = "s\<lparr>arrays := (arrays s)(dst \<mapsto> ys[unat i := ?v])\<rparr>"
    have r: "read_item src i s = Inr ?v"
      using "1.prems"(1,3) i by (simp add: read_item_def)
    have w: "write_item dst i ?v s = Inr ?s1"
      using "1.prems"(2,4) i by (simp add: write_item_def)
    have "copy_items dst src n (i + 1) ?s1 =
        Inr (?s1\<lparr>arrays := (arrays ?s1)(dst \<mapsto>
          take (unat (i + 1)) (ys[unat i := ?v]) @ drop (unat (i + 1)) xs)\<rparr>)"
      using "1.prems" le by (intro "1.IH" [OF True r w]) simp_all
    moreover have "take (Suc (unat i)) (ys[unat i := ?v]) @ drop (Suc (unat i)) xs =
        take (unat i) ys @ drop (unat i) xs"
      using "1.prems"(3,4) i
      by (simp add: take_Suc_conv_app_nth Cons_nth_drop_Suc)
    ultimately show ?thesis
      using True r w by (subst copy_items.simps) (simp add: i1)
  next
    case False
    with "1.prems"(6) have "i = n" by simp
    then have "take (unat i) ys @ drop (unat i) xs = ys"
      using "1.prems"(3,4) by simp
    moreover have "s\<lparr>arrays := (arrays s)(dst \<mapsto> ys)\<rparr> = s"
      using "1.prems"(2) by (simp add: map_upd_triv)
    ultimately show ?thesis
      using False by (subst copy_items.simps) simp
  qed
qed

lemma wf_memory_fresh: "wf_memory s \<Longrightarrow> arrays s p = Some xs \<Longrightarrow> p \<noteq> next_array s"
  by (auto simp: wf_memory_def)

lemma copy_ctor_result:
  assumes "wf_memory s" and "objects s A = Some a" and "arrays s (items a) = Some xs"
    and "length xs = unat (capacity_m a)" and "unat (capacity_m a) \<le> free_store s"
  shows "copy_ctor B A dflt s =
     (Inr (),
      s\<lparr>arrays := (arrays s)(next_array s \<mapsto> xs),
        next_array := Suc (next_array s),
        free_store := free_store s - unat (capacity_m a),
        objects := (objects s)(B \<mapsto>
          \<lparr>items = next_array s, capacity_m = capacity_m a, size_m = size_m a,
           front = front a, back_m = back_m a\<rparr>)\<rparr>)"
proof -
  let ?p = "next_array s"
  let ?ys = "replicate (unat (capacity_m a)) dflt"
  let ?s2 = "s\<lparr>arrays := (arrays s)(?p \<mapsto> ?ys), next_array := Suc ?p,
        free_store := free_store s - unat (capacity_m a),
        objects := (objects s)(B \<mapsto>
          \<lparr>items = ?p, capacity_m = capacity_m a, size_m = size_m a,
           front = front a, back_m = back_m a\<rparr>)\<rparr>"
  have ne: "?p \<noteq> items a"
    using wf_memory_fresh [OF assms(1,3)] by simp
  have "copy_items ?p (items a) (capacity_m a) 0 ?s2 =
      Inr (?s2\<lparr>arrays := (arrays ?s2)(?p \<mapsto> take (unat (0::size_t)) ?ys @ drop (unat (0::size_t)) xs)\<rparr>)"
    using assms(3,4) ne by (intro copy_items_result) simp_all
  then show ?thesis
    using assms(2) by (simp add: copy_ctor_def new_array_Inr [OF assms(5)])
qed

lemma copy_assign_result:
  assumes "wf_memory s" and "A \<noteq> B" and "objects s A = Some a" and "objects s B = Some b"
    and "arrays s (items a) = Some xs" and "length xs = unat (capacity_m a)"
    and "arrays s (items b) = Some ys" and "items a \<noteq> items b"
    and "unat (capacity_m a) \<le> free_store s + length ys"
  shows "copy_assign B A dflt s =
     (Inr (),
      s\<lparr>arrays := ((arrays s)(items b := None))(next_array s \<mapsto> xs),
        next_array := Suc (next_array s),
        free_store := free_store s + length ys - unat (capacity_m a),
        objects := (objects s)(B \<mapsto>
          \<lparr>items = next_array s, capacity_m = capacity_m a, size_m = size_m a,
           front = front a, back_m = back_m a\<rparr>)\<rparr>)"
proof -
  let ?p = "next_array s"
  let ?zs = "replicate (unat (capacity_m a)) dflt"
  let ?s0 = "s\<lparr>arrays := (arrays s)(items b := None),
        free_store := free_store s + length ys\<rparr>"
  let ?s2 = "s\<lparr>arrays := ((arrays s)(items b := None))(?p \<mapsto> ?zs), next_array := Suc ?p,
        free_store := free_store s + length ys - unat (capacity_m a),
        objects := (objects s)(B \<mapsto>
          \<lparr>items = ?p, capacity_m = capacity_m a, size_m = size_m a,
           front = front a, back_m = back_m a\<rparr>)\<rparr>"
  have ne: "?p \<noteq> items a"
    using wf_memory_fresh [OF assms(1,5)] by simp
  have d: "delete_array (items b) s = Inr ?s0"
    using assms(7) by (simp add: delete_array_def)
  have n: "new_array (capacity_m a) dflt ?s0 =
      Inr (?p, ?s0\<lparr>arrays := (arrays ?s0)(?p \<mapsto> ?zs), next_array := Suc ?p,
        free_store := free_store ?s0 - unat (capacity_m a)\<rparr>)"
    using assms(9) by (simp add: new_array_def)
  have "copy_items ?p (items a) (capacity_m a) 0 ?s2 =
      Inr (?s2\<lparr>arrays := (arrays ?s2)(?p \<mapsto> take (unat (0::size_t)) ?zs @ drop (unat (0::size_t)) xs)\<rparr>)"
    using assms(5,6,8) ne by (intro copy_items_result) simp_all
  then show ?thesis
    using assms(2,3,4) d n by (simp add: copy_assign_def)
qed

lemma view_other_push:
  assumes "separate s X Y"
  shows "view (snd (push Y v s)) X = view s X \<and> separate (snd (push Y v s)) X Y"
proof -
  from assms obtain x y where xy: "X \<noteq> Y" "objects s X = Some x" "objects s Y = Some y"
    "items x \<noteq> items y"
    by (auto simp: separate_def split: option.splits)
  show ?thesis
  proof (cases "size_m y = capacity_m y")
    case True
    then show ?thesis using xy assms by (simp add: push_def)
  next
    case full: False
    show ?thesis
    proof (cases "safe_increment (capacity_m y) (back_m y)")
      case (Inl e)
      then show ?thesis using xy assms full by (simp add: push_def)
    next
      case (Inr b)
      let ?s1 = "s\<lparr>objects := (objects s)(Y \<mapsto> y\<lparr>back_m := b\<rparr>)\<rparr>"
      show ?thesis
      proof (cases "arrays s (items y)")
        case None
        then have "snd (push Y v s) = ?s1"
          using xy full Inr by (simp add: push_def write_item_def)
        then show ?thesis
          using xy by (simp add: view_def separate_def)
      next
        case (Some ys)
        show ?thesis
        proof (cases "unat b < length ys")
          case True
          then have "snd (push Y v s) =
              s\<lparr>arrays := (arrays s)(items y \<mapsto> ys[unat b := v]),
                objects := (objects s)(Y \<mapsto> y\<lparr>back_m := b, size_m := size_m y + 1\<rparr>)\<rparr>"
            using xy full Inr Some by (simp add: push_def write_item_def)
          then show ?thesis
            using xy by (simp add: view_def separate_def)
        next
          case False
          then have "snd (push Y v s) = ?s1"
            using xy full Inr Some by (simp add: push_def write_item_def)
          then show ?thesis
            using xy by (simp add: view_def separate_def)
        qed
      qed
    qed
  qed
qed

lemma view_other_pop:
  assumes "separate s X Y"
  shows "view (snd (pop Y s)) X = view s X \<and> separate (snd (pop Y s)) X Y"
proof -
  from assms obtain x y where xy: "X \<noteq> Y" "objects s X = Some x" "objects s Y = Some y"
    "items x \<noteq> items y"
    by (auto simp: separate_def split: option.splits)
  then show ?thesis
    using assms
    by (auto simp: pop_def view_def separate_def split: sum.splits)
qed

lemma view_other_mutate:
  assumes "separate s X Y"
  shows "view (mutate Y ms s) X = view s X \<and> separate (mutate Y ms s) X Y"
  using assms
proof (induction ms arbitrary: s)
  case Nil
  then show ?case by simp
next
  case (Cons m ms)
  show ?case
  proof (cases m)
    case (Push v)
    from view_other_push [OF Cons.prems, of v] Cons.IH [of "snd (push Y v s)"] Push
    show ?thesis by simp
  next
    case Pop
    from view_other_pop [OF Cons.prems] Cons.IH [of "snd (pop Y s)"] Pop
    show ?thesis by simp
  qed
qed

lemma separate_sym: "separate s X Y \<Longrightarrow> separate s Y X"
  by (auto simp: separate_def split: option.splits)

lemma view_eqD:
  assumes "view s X = view s' X"
  shows "objects s' X = objects s X"
    and "objects s X = Some x \<Longrightarrow> arrays s' (items x) = arrays s (items x)"
proof -
  from assms show 1: "objects s' X = objects s X"
    by (simp add: view_def)
  assume "objects s X = Some x"
  with assms 1 show "arrays s' (items x) = arrays s (items x)"
    by (simp add: view_def)
qed

lemma item_ref_cong: "arrays s' p = arrays s p \<Longrightarrow> item_ref p i s' = item_ref p i s"
  by (simp add: item_ref_def)

lemma read_item_cong: "arrays s' p = arrays s p \<Longrightarrow> read_item p i s' = read_item p i s"
  by (simp add: read_item_def)

lemma view_size_op:
  assumes "view s X = view s' X"
  shows "fst (size_op X s) = fst (size_op X s')"
  using view_eqD(1) [OF assms] by (simp add: size_op_def split: option.splits)

lemma view_front_value:
  assumes "view s X = view s' X"
  shows "front_value X s = front_value X s'"
proof (cases "objects s X")
  case None
  then show ?thesis
    using view_eqD(1) [OF assms] by (simp add: front_value_def peek_front_def)
next
  case (Some x)
  from view_eqD(1) [OF assms] view_eqD(2) [OF assms Some] Some
  have "objects s' X = Some x" and a: "arrays s' (items x) = arrays s (items x)"
    by simp_all
  then show ?thesis
    using Some item_ref_cong [OF a, of "front x"]
    by (auto simp: front_value_def peek_front_def deref_def item_ref_def read_item_def
        split: option.splits)
qed

lemma view_back_value:
  assumes "view s X = view s' X"
  shows "back_value X s = back_value X s'"
proof (cases "objects s X")
  case None
  then show ?thesis
    using view_eqD(1) [OF assms] by (simp add: back_value_def peek_back_def)
next
  case (Some x)
  from view_eqD(1) [OF assms] view_eqD(2) [OF assms Some] Some
  have "objects s' X = Some x" and a: "arrays s' (items x) = arrays s (items x)"
    by simp_all
  then show ?thesis
    using Some item_ref_cong [OF a, of "back_m x"]
    by (auto simp: back_value_def peek_back_def deref_def item_ref_def read_item_def
        split: option.splits)
qed

lemma view_pop:
  assumes "view s X = view s' X"
  shows "fst (pop X s) = fst (pop X s') \<and>
     view (snd (pop X s)) X = view (snd (pop X s')) X \<and>
     (\<forall>r. fst (pop X s) = Inr r \<longrightarrow> deref (snd (pop X s)) r = deref (snd (pop X s')) r)"
proof (cases "objects s X")
  case None
  then show ?thesis
    using view_eqD(1) [OF assms] assms by (simp add: pop_def)
next
  case (Some x)
  from view_eqD(1) [OF assms] view_eqD(2) [OF assms Some] Some
  have x': "objects s' X = Some x" and a: "arrays s' (items x) = arrays s (items x)"
    by simp_all
  show ?thesis
  proof (cases "size_m x = 0")
    case True
    then show ?thesis using Some x' assms by (simp add: pop_def)
  next
    case nonempty: False
    show ?thesis
    proof (cases "item_ref (items x) (front x) s")
      case (Inl e)
      then show ?thesis
        using Some x' nonempty assms item_ref_cong [OF a, of "front x"]
        by (simp add: pop_def)
    next
      case r: (Inr r)
      then have r_eq: "r = (items x, front x)"
        by (auto simp: item_ref_def split: option.splits if_splits)
      show ?thesis
      proof (cases "safe_increment (capacity_m x) (front x)")
        case (Inl e)
        then show ?thesis
          using Some x' nonempty assms r item_ref_cong [OF a, of "front x"]
          by (simp add: pop_def)
      next
        case (Inr f)
        let ?x = "x\<lparr>front := f, size_m := size_m x - 1\<rparr>"
        have "pop X s = (Inr r, s\<lparr>objects := (objects s)(X \<mapsto> ?x)\<rparr>)"
          using Some nonempty r Inr by (simp add: pop_def)
        moreover have "pop X s' = (Inr r, s'\<lparr>objects := (objects s')(X \<mapsto> ?x)\<rparr>)"
          using x' nonempty r Inr item_ref_cong [OF a, of "front x"] by (simp add: pop_def)
        ultimately show ?thesis
          using a r_eq by (simp add: view_def deref_def read_item_def)
      qed
    qed
  qed
qed

lemma view_pop_n:
  assumes "view s X = view s' X"
  shows "fst (pop_n X k s) = fst (pop_n X k s')"
  using assms
proof (induction k arbitrary: s s')
  case 0
  show ?case by simp
next
  case (Suc k)
  obtain o1 s1 where p: "pop X s = (o1, s1)" by (cases "pop X s")
  obtain o1' s1' where p': "pop X s' = (o1', s1')" by (cases "pop X s'")
  from view_pop [OF Suc.prems] p p'
  have o: "o1' = o1" and v: "view s1 X = view s1' X" by simp_all
  show ?case
  proof (cases o1)
    case (Inl e)
    then show ?thesis using p p' o by simp
  next
    case (Inr r)
    with view_pop [OF Suc.prems] p p'
    have d: "deref s1' r = deref s1 r" by simp
    show ?thesis
    proof (cases "deref s1 r")
      case (Inl e)
      then show ?thesis using p p' o Inr d by simp
    next
      case val: (Inr x)
      obtain o2 s2 where q: "pop_n X k s1 = (o2, s2)" by (cases "pop_n X k s1")
      obtain o2' s2' where q': "pop_n X k s1' = (o2', s2')" by (cases "pop_n X k s1'")
      from Suc.IH [OF v] q q' have "o2' = o2" by simp
      then show ?thesis
        using p p' o Inr d val q q' by (cases o2) simp_all
    qed
  qed
qed

lemma view_observe:
  assumes "view s X = view s' X"
  shows "observe X k s = observe X k s'"
  using view_size_op [OF assms] view_front_value [OF assms] view_back_value [OF assms]
    view_pop_n [OF assms]
  by (simp add: observe_def)

lemma separate_independent:
  assumes "separate s X Y"
  shows "observe X k (mutate Y ms s) = observe X k s"
    and "observe Y k (mutate X ms s) = observe Y k s"
proof -
  from view_other_mutate [OF assms, of ms]
  have "view (mutate Y ms s) X = view s X" by simp
  then show "observe X k (mutate Y ms s) = observe X k s"
    by (rule view_observe)
  from view_other_mutate [OF separate_sym [OF assms], of ms]
  have "view (mutate X ms s) Y = view s Y" by simp
  then show "observe Y k (mutate X ms s) = observe Y k s"
    by (rule view_observe)
qed

subsection \<open>Moves\<close>

text \<open>
  What the two moves do on every well-formed queue: the destination is a well-formed
  queue with the contents of the source; the source keeps its members, and its block is
  deleted once more when it is destroyed.
\<close>

lemma move_ctor_result:
  assumes "wf_memory s" and "objects s A = Some a" and "arrays s (items a) = Some xs"
    and "length xs = unat (capacity_m a)" and "unat (capacity_m a) \<le> free_store s"
  shows "move_ctor B A dflt s =
     (Inr (),
      s\<lparr>arrays := ((arrays s)(next_array s \<mapsto> xs))(items a := None),
        next_array := Suc (next_array s),
        free_store := free_store s - unat (capacity_m a) + length xs,
        objects := (objects s)(B \<mapsto>
          \<lparr>items = next_array s, capacity_m = capacity_m a, size_m = size_m a,
           front = front a, back_m = back_m a\<rparr>)\<rparr>)"
proof -
  let ?p = "next_array s"
  let ?ys = "replicate (unat (capacity_m a)) dflt"
  let ?s2 = "s\<lparr>arrays := (arrays s)(?p \<mapsto> ?ys), next_array := Suc ?p,
        free_store := free_store s - unat (capacity_m a),
        objects := (objects s)(B \<mapsto>
          \<lparr>items = ?p, capacity_m = capacity_m a, size_m = size_m a,
           front = front a, back_m = back_m a\<rparr>)\<rparr>"
  have ne: "?p \<noteq> items a"
    using wf_memory_fresh [OF assms(1,3)] by simp
  have "copy_items ?p (items a) (capacity_m a) 0 ?s2 =
      Inr (?s2\<lparr>arrays := (arrays ?s2)(?p \<mapsto> take (unat (0::size_t)) ?ys @ drop (unat (0::size_t)) xs)\<rparr>)"
    using assms(3,4) ne by (intro copy_items_result) simp_all
  then show ?thesis
    using assms(2,3) ne
    by (simp add: move_ctor_def new_array_Inr [OF assms(5)] delete_array_def)
qed

lemma move_ctor_source_dangles:
  assumes "wf_memory s" and "valid_queue s A" and "objects s A = Some a" and "A \<noteq> B"
    and "unat (capacity_m a) \<le> free_store s"
  shows "\<exists>s1. move_ctor B A dflt s = (Inr (), s1) \<and>
           valid_queue s1 B \<and> contents s1 B = contents s A \<and>
           objects s1 A = Some a \<and> arrays s1 (items a) = None \<and>
           dtor A s1 = (Inl DoubleFree, s1)"
proof -
  from assms(2,3) obtain xs where xs: "arrays s (items a) = Some xs"
    and valid: "length xs = unat (capacity_m a) \<and> front a < capacity_m a \<and>
      back_m a < capacity_m a \<and> size_m a \<le> capacity_m a \<and>
      unat (back_m a) =
        (unat (front a) + unat (size_m a) + (unat (capacity_m a) - 1))
          mod unat (capacity_m a)"
    by (auto elim!: valid_queueD)
  have ne: "items a \<noteq> next_array s"
    using assms(1) xs by (rule wf_memory_fresh)
  let ?s1 = "s\<lparr>arrays := ((arrays s)(next_array s \<mapsto> xs))(items a := None),
        next_array := Suc (next_array s),
        free_store := free_store s - unat (capacity_m a) + length xs,
        objects := (objects s)(B \<mapsto>
          \<lparr>items = next_array s, capacity_m = capacity_m a, size_m = size_m a,
           front = front a, back_m = back_m a\<rparr>)\<rparr>"
  show ?thesis
  proof (intro exI conjI)
    show "move_ctor B A dflt s = (Inr (), ?s1)"
      using assms(1,3,5) xs valid by (intro move_ctor_result) simp_all
    show "valid_queue ?s1 B"
      using valid ne by (simp add: valid_queue_def)
    show "contents ?s1 B = contents s A"
      using assms(3) xs ne by (simp add: contents_def)
    show "objects ?s1 A = Some a"
      using assms(3,4) by simp
    show "arrays ?s1 (items a) = None"
      by simp
    show "dtor A ?s1 = (Inl DoubleFree, ?s1)"
      using assms(3,4) by (simp add: dtor_def delete_array_def)
  qed
qed

lemma move_assign_aliases:
  assumes "valid_queue s A" and "valid_queue s B" and "separate s A B"
    and "objects s A = Some a"
  shows "\<exists>s1 s2. move_assign B A s = (Inr (), s1) \<and>
           valid_queue s1 B \<and> contents s1 B = contents s A \<and>
           objects s1 A = Some a \<and> objects s1 B = Some a \<and>
           dtor B s1 = (Inr (), s2) \<and> dtor A s2 = (Inl DoubleFree, s2)"
proof -
  from assms(1,4) obtain xs where xs: "arrays s (items a) = Some xs"
    and valid: "length xs = unat (capacity_m a) \<and> front a < capacity_m a \<and>
      back_m a < capacity_m a \<and> size_m a \<le> capacity_m a \<and>
      unat (back_m a) =
        (unat (front a) + unat (size_m a) + (unat (capacity_m a) - 1))
          mod unat (capacity_m a)"
    by (auto elim!: valid_queueD)
  from assms(2) obtain b ys where b: "objects s B = Some b"
    and ys: "arrays s (items b) = Some ys"
    by (auto elim!: valid_queueD)
  from assms(3,4) b have ne: "A \<noteq> B" and diff: "items a \<noteq> items b"
    by (simp_all add: separate_def)
  have same: "\<lparr>items = items a, capacity_m = capacity_m a, size_m = size_m a,
      front = front a, back_m = back_m a\<rparr> = a"
    by simp
  let ?s1 = "s\<lparr>arrays := (arrays s)(items b := None),
        free_store := free_store s + length ys,
        objects := (objects s)(B \<mapsto> a)\<rparr>"
  let ?s2 = "s\<lparr>arrays := (arrays s)(items b := None, items a := None),
        free_store := free_store s + length ys + length xs,
        objects := (objects s)(B := None)\<rparr>"
  show ?thesis
  proof (intro exI conjI)
    show "move_assign B A s = (Inr (), ?s1)"
      using assms(4) b ys ne by (simp add: move_assign_def delete_array_def same)
    show "valid_queue ?s1 B"
      using valid xs diff by (simp add: valid_queue_def)
    show "contents ?s1 B = contents s A"
      using assms(4) xs diff by (simp add: contents_def)
    show "objects ?s1 A = Some a"
      using assms(4) ne by simp
    show "objects ?s1 B = Some a"
      by simp
    show "dtor B ?s1 = (Inr (), ?s2)"
      using xs diff by (simp add: dtor_def delete_array_def)
    show "dtor A ?s2 = (Inl DoubleFree, ?s2)"
      using assms(4) ne by (simp add: dtor_def delete_array_def)
  qed
qed

subsection \<open>The peeks\<close>

lemma peek_never_Empty:
  "fst (peek_front this s) \<noteq> Inl Empty \<and> fst (peek_back this s) \<noteq> Inl Empty"
  by (simp add: peek_front_def peek_back_def item_ref_def split: option.splits)

lemma pop_empty_queue:
  assumes "objects s this = Some t" and "size_m t = 0"
  shows "pop this s = (Inl Empty, s)"
  using assms by (simp add: pop_def)

lemma ring_last:
  fixes f n c :: nat
  assumes "0 < n" and "0 < c"
  shows "(f + (n - 1)) mod c = (f + n + (c - 1)) mod c"
proof -
  have "f + n + (c - 1) = f + (n - 1) + c"
    using assms by simp
  then have "(f + n + (c - 1)) mod c = (f + (n - 1) + c) mod c"
    by (rule arg_cong)
  also have "\<dots> = (f + (n - 1)) mod c"
    by (rule mod_add_self2)
  finally show ?thesis by (rule sym)
qed

lemma peek_nonempty:
  assumes "valid_queue s this" and "objects s this = Some t" and "size_m t \<noteq> 0"
  shows "front_value this s = Inr (hd (contents s this))"
    and "back_value this s = Inr (last (contents s this))"
proof -
  from assms(1,2) obtain xs where xs: "arrays s (items t) = Some xs"
    and len: "length xs = unat (capacity_m t)" and f: "front t < capacity_m t"
    and b: "back_m t < capacity_m t"
    and ring: "unat (back_m t) =
           (unat (front t) + unat (size_m t) + (unat (capacity_m t) - 1))
             mod unat (capacity_m t)"
    by (auto elim!: valid_queueD)
  have npos: "0 < unat (size_m t)"
    using assms(3) by (simp add: unat_gt_0)
  have flt: "unat (front t) < unat (capacity_m t)"
    using f by (simp add: word_less_nat_alt)
  have blt: "unat (back_m t) < unat (capacity_m t)"
    using b by (simp add: word_less_nat_alt)
  have c: "contents s this =
      map (\<lambda>k. xs ! ((unat (front t) + k) mod unat (capacity_m t))) [0..<unat (size_m t)]"
    using assms(2) xs by (simp add: contents_def)
  have "hd (contents s this) = xs ! unat (front t)"
    using npos flt by (simp add: c hd_map upt_conv_Cons)
  then show "front_value this s = Inr (hd (contents s this))"
    using assms(2) xs len flt
    by (simp add: front_value_def peek_front_def item_ref_def deref_def read_item_def)
  have "last (contents s this) =
      xs ! ((unat (front t) + (unat (size_m t) - 1)) mod unat (capacity_m t))"
    using npos by (simp add: c last_map)
  also have "(unat (front t) + (unat (size_m t) - 1)) mod unat (capacity_m t) =
      unat (back_m t)"
    using ring_last [of "unat (size_m t)" "unat (capacity_m t)" "unat (front t)"] npos flt ring
    by simp
  finally show "back_value this s = Inr (last (contents s this))"
    using assms(2) xs len blt
    by (simp add: back_value_def peek_back_def item_ref_def deref_def read_item_def)
qed

subsection \<open>The example memories\<close>

lemma one_of_two_eq:
  "one_of_two =
     \<lparr>objects = [0 \<mapsto> \<lparr>items = 0, capacity_m = 2, size_m = 1, front = 0, back_m = 0\<rparr>],
      arrays = [0 \<mapsto> [7, 0]], next_array = 1,
      free_store = 1022\<rparr>"
proof -
  have "replicate (unat (2::size_t)) (0::int) = [0, 0]"
    by (simp add: replicate_Suc [symmetric] del: replicate_Suc) code_simp
  then show ?thesis
    by (simp add: one_of_two_def ctor_def new_array_def mem0_def push_def safe_increment_def
      SIZE_MAX_def write_item_def)
qed

lemma two_of_two_eq:
  "two_of_two =
     \<lparr>objects = [0 \<mapsto> \<lparr>items = 0, capacity_m = 2, size_m = 2, front = 0, back_m = 1\<rparr>],
      arrays = [0 \<mapsto> [7, 8]], next_array = 1,
      free_store = 1022\<rparr>"
  by (simp add: two_of_two_def one_of_two_eq push_def safe_increment_def
      SIZE_MAX_def write_item_def)

lemma valid_one_of_two: "valid_queue one_of_two 0"
  by (simp add: one_of_two_eq valid_queue_def)

lemma valid_two_of_two: "valid_queue two_of_two 0"
  by (simp add: two_of_two_eq valid_queue_def)

lemma fresh_one_eq:
  "fresh_one =
     \<lparr>objects = [0 \<mapsto> \<lparr>items = 0, capacity_m = 1, size_m = 0, front = 0, back_m = 0\<rparr>],
      arrays = [0 \<mapsto> [0]], next_array = 1,
      free_store = 1023\<rparr>"
  by (simp add: fresh_one_def ctor_def new_array_def mem0_def)

lemma drained_eq:
  "drained =
     \<lparr>objects = [0 \<mapsto> \<lparr>items = 0, capacity_m = 2, size_m = 0, front = 1, back_m = 0\<rparr>],
      arrays = [0 \<mapsto> [7, 0]], next_array = 1,
      free_store = 1022\<rparr>"
  by (simp add: drained_def one_of_two_eq pop_def item_ref_def safe_increment_def
      SIZE_MAX_def)

lemma moved_into_new_eq:
  "move_ctor 1 0 0 one_of_two =
     (Inr (),
      \<lparr>objects =
         [0 \<mapsto> \<lparr>items = 0, capacity_m = 2, size_m = 1, front = 0, back_m = 0\<rparr>,
          1 \<mapsto> \<lparr>items = 1, capacity_m = 2, size_m = 1, front = 0, back_m = 0\<rparr>],
       arrays = [1 \<mapsto> [7, 0]], next_array = 2,
      free_store = 1022\<rparr>)"
proof -
  have "replicate (unat (2::size_t)) (0::int) = [0, 0]"
    by code_simp
  then show ?thesis
    by (simp add: move_ctor_def one_of_two_eq new_array_def copy_items.simps read_item_def
        write_item_def delete_array_def fun_upd_twist)
qed

lemma moved_into_old_eq:
  "move_assign 1 0 (snd (ctor 1 1 0 one_of_two)) =
     (Inr (),
      \<lparr>objects =
         [0 \<mapsto> \<lparr>items = 0, capacity_m = 2, size_m = 1, front = 0, back_m = 0\<rparr>,
          1 \<mapsto> \<lparr>items = 0, capacity_m = 2, size_m = 1, front = 0, back_m = 0\<rparr>],
       arrays = [0 \<mapsto> [7, 0]], next_array = 2,
      free_store = 1022\<rparr>)"
  by (simp add: move_assign_def ctor_def one_of_two_eq new_array_def delete_array_def)

lemma two_queues_eq:
  "two_queues =
     \<lparr>objects =
        [0 \<mapsto> \<lparr>items = 0, capacity_m = 2, size_m = 1, front = 0, back_m = 0\<rparr>,
         1 \<mapsto> \<lparr>items = 1, capacity_m = 1, size_m = 0, front = 0, back_m = 0\<rparr>],
      arrays = [0 \<mapsto> [7, 0], 1 \<mapsto> [0]], next_array = 2,
      free_store = 1021\<rparr>"
  by (simp add: two_queues_def ctor_def one_of_two_eq new_array_def)

lemma observe_one_of_two: "observe 0 1 one_of_two = (Inr 1, Inr 7, Inr 7, Inr [7])"
  by (simp add: observe_def one_of_two_eq size_op_def front_value_def back_value_def
      peek_front_def peek_back_def item_ref_def deref_def read_item_def pop_def
      safe_increment_def SIZE_MAX_def)

text \<open>The example of the specification, run on the model.\<close>

lemma specification_example:
  "\<exists>s0 s3 s5 s6 s7.
     ctor 0 3 (0::int) mem0 = (Inr (), s0) \<and>
     push_all 0 [1, 2, 3] s0 = (Inr (), s3) \<and>
     push 0 4 s3 = (Inl Full, s3) \<and>
     pop_n 0 1 s3 = (Inr [1], s5) \<and>
     push 0 4 s5 = (Inr (), s6) \<and>
     pop_n 0 3 s6 = (Inr [2, 3, 4], s7) \<and>
     empty_op 0 s7 = (Inr True, s7) \<and>
     pop 0 s7 = (Inl Empty, s7)"
proof -
  have "replicate (unat (3::size_t)) (0::int) = [0, 0, 0]"
    by code_simp
  moreover have "pop_n 0 3 s = pop_n 0 (Suc (Suc (Suc 0))) s" for s :: "int memory"
    by (simp add: numeral_3_eq_3)
  ultimately show ?thesis
    by (simp add: ctor_def new_array_def mem0_def push_def pop_def empty_op_def
        safe_increment_def SIZE_MAX_def write_item_def item_ref_def deref_def read_item_def)
qed

section \<open>The claims\<close>

text \<open>
  C1. FIFO order: for every sequence of \<open>k \<le> capacity\<close> pushes of values
  \<open>v1, \<dots>, vk\<close> into a freshly constructed queue, with no pop in between, every push
  succeeds, and \<open>k\<close> pops then return \<open>v1, \<dots>, vk\<close> in that order. The queue is
  constructed in any memory whose free store has room for its block.
\<close>

theorem fifo_order:
  assumes "cap \<noteq> 0" and "unat cap \<le> free_store s" and "length vs \<le> unat cap"
  shows "\<exists>s1 s2 s3. ctor this cap dflt s = (Inr (), s1) \<and>
           push_all this vs s1 = (Inr (), s2) \<and>
           pop_n this (length vs) s2 = (Inr vs, s3)"
proof -
  from ctor_valid [OF assms(1,2), of this dflt]
  obtain s1 where c: "ctor this cap dflt s = (Inr (), s1)" and v1: "valid_queue s1 this"
    and e1: "contents s1 this = []"
    and o1: "objects s1 this =
      Some \<lparr>items = next_array s, capacity_m = cap, size_m = 0, front = 0,
            back_m = cap - 1\<rparr>"
    by blast
  from push_all_valid [OF v1 o1, of vs] assms(3)
  obtain s2 t2 where p: "push_all this vs s1 = (Inr (), s2)" and v2: "valid_queue s2 this"
    and c2: "contents s2 this = vs" and o2: "objects s2 this = Some t2"
    and n2: "unat (size_m t2) = length vs"
    using e1 by auto
  from pop_n_valid [OF v2 o2, of "length vs"] n2
  obtain s3 where "pop_n this (length vs) s2 = (Inr (take (length vs) (contents s2 this)), s3)"
    by auto
  then show ?thesis
    using c p c2 by simp
qed

theorem fifo_order_witness:
  "(3::size_t) \<noteq> 0 \<and> unat (3::size_t) \<le> free_store (mem0 :: int memory) \<and>
   length [10, 20, 30::int] \<le> unat (3::size_t) \<and>
   (\<exists>s1 s2 s3. ctor 0 3 (0::int) mem0 = (Inr (), s1) \<and>
      push_all 0 [10, 20, 30::int] s1 = (Inr (), s2) \<and>
      pop_n 0 (length [10, 20, 30::int]) s2 = (Inr [10, 20, 30::int], s3))"
  using fifo_order [of 3 mem0 "[10, 20, 30::int]" 0 "0::int"] by (simp add: mem0_def)

text \<open>
  C2. The claim: on a queue of size 0 each of \<open>pop\<close>, \<open>peek_front\<close> and \<open>peek_back\<close>
  fails with \<open>Empty\<close>. The code run on two empty queues, the one just constructed with
  capacity 1 and the one of capacity 2 drained by one push and one pop: \<open>pop\<close> throws
  \<open>Empty\<close> and leaves the memory as it is, but \<open>peek_front\<close> and \<open>peek_back\<close> return a
  reference to a slot, and on the drained queue \<open>peek_back\<close> hands out the value 7 that
  \<open>pop\<close> has already removed.
\<close>

theorem peek_on_empty_queue:
  "ctor 0 1 0 mem0 = (Inr (), fresh_one) \<and>
   size_op 0 fresh_one = (Inr 0, fresh_one) \<and>
   pop 0 fresh_one = (Inl Empty, fresh_one) \<and>
   peek_front 0 fresh_one = (Inr (0, 0), fresh_one) \<and>
   peek_back 0 fresh_one = (Inr (0, 0), fresh_one) \<and>
   deref fresh_one (0, 0) = Inr 0 \<and>
   pop 0 one_of_two = (Inr (0, 0), drained) \<and>
   size_op 0 drained = (Inr 0, drained) \<and>
   pop 0 drained = (Inl Empty, drained) \<and>
   peek_front 0 drained = (Inr (0, 1), drained) \<and>
   peek_back 0 drained = (Inr (0, 0), drained) \<and>
   deref drained (0, 0) = Inr 7"
proof -
  have "ctor 0 1 0 mem0 = (Inr (), fresh_one)"
    by (simp add: fresh_one_def ctor_def new_array_def mem0_def)
  moreover have "pop 0 one_of_two = (Inr (0, 0), drained)"
    by (simp add: drained_def one_of_two_eq pop_def item_ref_def safe_increment_def
      SIZE_MAX_def)
  moreover have "size_op 0 fresh_one = (Inr 0, fresh_one)"
    and "pop 0 fresh_one = (Inl Empty, fresh_one)"
    and "peek_front 0 fresh_one = (Inr (0, 0), fresh_one)"
    and "peek_back 0 fresh_one = (Inr (0, 0), fresh_one)"
    and "deref fresh_one (0, 0) = Inr 0"
    by (simp_all add: fresh_one_eq size_op_def pop_def peek_front_def peek_back_def
        item_ref_def deref_def read_item_def)
  moreover have "size_op 0 drained = (Inr 0, drained)"
    and "pop 0 drained = (Inl Empty, drained)"
    and "peek_front 0 drained = (Inr (0, 1), drained)"
    and "peek_back 0 drained = (Inr (0, 0), drained)"
    and "deref drained (0, 0) = Inr 7"
    by (simp_all add: drained_eq size_op_def pop_def peek_front_def peek_back_def
        item_ref_def deref_def read_item_def)
  ultimately show ?thesis by simp
qed

text \<open>
  C3. On a well-formed queue, \<open>push\<close> throws \<open>Full\<close> exactly when the size equals the
  capacity, and then the memory is unchanged; when the size is below the capacity it
  sets \<open>back\<close> to \<open>(back + 1) mod capacity\<close>, writes the value into that slot and adds
  one to the size. Both overloads of \<open>push\<close> do the same.
\<close>

theorem push_full_or_stored:
  assumes "valid_queue s this" and "objects s this = Some t"
    and "arrays s (items t) = Some xs"
  shows "(fst (push this v s) = Inl Full \<longleftrightarrow> size_m t = capacity_m t) \<and>
     (size_m t = capacity_m t \<longrightarrow> push this v s = (Inl Full, s)) \<and>
     (size_m t < capacity_m t \<longrightarrow>
        push this v s =
          (Inr (),
           s\<lparr>objects := (objects s)(this \<mapsto>
                t\<lparr>back_m := (back_m t + 1) mod capacity_m t, size_m := size_m t + 1\<rparr>),
             arrays := (arrays s)(items t \<mapsto>
                xs[unat ((back_m t + 1) mod capacity_m t) := v])\<rparr>)) \<and>
     push_rvalue this v s = push this v s"
proof -
  from assms have len: "length xs = unat (capacity_m t)" and b: "back_m t < capacity_m t"
    by (auto elim!: valid_queueD)
  have full: "push this v s = (Inl Full, s)" if "size_m t = capacity_m t"
    using that assms(2) by (simp add: push_def)
  have stored: "push this v s =
          (Inr (),
           s\<lparr>objects := (objects s)(this \<mapsto>
                t\<lparr>back_m := (back_m t + 1) mod capacity_m t, size_m := size_m t + 1\<rparr>),
             arrays := (arrays s)(items t \<mapsto>
                xs[unat ((back_m t + 1) mod capacity_m t) := v])\<rparr>)"
    if "size_m t \<noteq> capacity_m t"
    using push_success [OF assms(2,3) len b that, of v]
    by (simp add: circular_advance_def)
  have "fst (push this v s) = Inl Full \<longleftrightarrow> size_m t = capacity_m t"
    using full stored by (cases "size_m t = capacity_m t") simp_all
  moreover have "push_rvalue this v s = push this v s"
    by (simp add: push_rvalue_def push_def)
  ultimately show ?thesis
    using full stored by auto
qed

theorem push_full_or_stored_witness:
  "valid_queue one_of_two 0 \<and>
   objects one_of_two 0 =
     Some \<lparr>items = 0, capacity_m = 2, size_m = 1, front = 0, back_m = 0\<rparr> \<and>
   arrays one_of_two 0 = Some [7, 0] \<and>
   push 0 8 one_of_two =
     (Inr (),
      \<lparr>objects = [0 \<mapsto> \<lparr>items = 0, capacity_m = 2, size_m = 2, front = 0, back_m = 1\<rparr>],
       arrays = [0 \<mapsto> [7, 8]], next_array = 1,
      free_store = 1022\<rparr>) \<and>
   valid_queue two_of_two 0 \<and>
   objects two_of_two 0 =
     Some \<lparr>items = 0, capacity_m = 2, size_m = 2, front = 0, back_m = 1\<rparr> \<and>
   arrays two_of_two 0 = Some [7, 8] \<and>
   push 0 9 two_of_two = (Inl Full, two_of_two)"
  using
    push_full_or_stored [of one_of_two 0
      "\<lparr>items = 0, capacity_m = 2, size_m = 1, front = 0, back_m = 0\<rparr>" "[7, 0]" 8]
    push_full_or_stored [of two_of_two 0
      "\<lparr>items = 0, capacity_m = 2, size_m = 2, front = 0, back_m = 1\<rparr>" "[7, 8]" 9]
    valid_one_of_two valid_two_of_two
  by (simp add: one_of_two_eq two_of_two_eq)

text \<open>
  C4. The claim: a move hands the storage over without copying elements, gives the
  destination the capacity, size, front and back of the source, and leaves the source
  empty, of capacity zero, safe to destroy and not aliasing the destination. The code
  run on the queue of \<open>one_of_two\<close>: the destination does get the four members and the
  contents. But the move constructor fills a new block element by element and deletes
  the block of the source, and move assignment copies the pointer; in both the source
  keeps its capacity, size and pointer. After the move constructor the pointer of the
  source is dangling: a peek on the source reads deleted storage and destroying the
  source deletes the block a second time. After move assignment source and destination
  point at one block, and destroying both deletes it twice.
\<close>

theorem move_leaves_source_unsafe:
  "objects one_of_two 0 =
     Some \<lparr>items = 0, capacity_m = 2, size_m = 1, front = 0, back_m = 0\<rparr> \<and>
   arrays one_of_two 0 = Some [7, 0] \<and>
   move_ctor 1 0 0 one_of_two = (Inr (), moved_into_new) \<and>
   objects moved_into_new 1 =
     Some \<lparr>items = 1, capacity_m = 2, size_m = 1, front = 0, back_m = 0\<rparr> \<and>
   arrays moved_into_new 1 = Some [7, 0] \<and>
   objects moved_into_new 0 =
     Some \<lparr>items = 0, capacity_m = 2, size_m = 1, front = 0, back_m = 0\<rparr> \<and>
   arrays moved_into_new 0 = None \<and>
   peek_front 0 moved_into_new = (Inl UseAfterFree, moved_into_new) \<and>
   dtor 0 moved_into_new = (Inl DoubleFree, moved_into_new) \<and>
   move_assign 1 0 (snd (ctor 1 1 0 one_of_two)) = (Inr (), moved_into_old) \<and>
   objects moved_into_old 1 =
     Some \<lparr>items = 0, capacity_m = 2, size_m = 1, front = 0, back_m = 0\<rparr> \<and>
   objects moved_into_old 0 =
     Some \<lparr>items = 0, capacity_m = 2, size_m = 1, front = 0, back_m = 0\<rparr> \<and>
   fst (dtor 1 moved_into_old) = Inr () \<and>
   fst (dtor 0 (snd (dtor 1 moved_into_old))) = Inl DoubleFree"
proof -
  have new: "moved_into_new =
      \<lparr>objects =
         [0 \<mapsto> \<lparr>items = 0, capacity_m = 2, size_m = 1, front = 0, back_m = 0\<rparr>,
          1 \<mapsto> \<lparr>items = 1, capacity_m = 2, size_m = 1, front = 0, back_m = 0\<rparr>],
       arrays = [1 \<mapsto> [7, 0]], next_array = 2,
      free_store = 1022\<rparr>"
    by (simp only: moved_into_new_def moved_into_new_eq snd_conv)
  have old: "moved_into_old =
      \<lparr>objects =
         [0 \<mapsto> \<lparr>items = 0, capacity_m = 2, size_m = 1, front = 0, back_m = 0\<rparr>,
          1 \<mapsto> \<lparr>items = 0, capacity_m = 2, size_m = 1, front = 0, back_m = 0\<rparr>],
       arrays = [0 \<mapsto> [7, 0]], next_array = 2,
      free_store = 1022\<rparr>"
    by (simp only: moved_into_old_def moved_into_old_eq snd_conv)
  have "objects one_of_two 0 =
     Some \<lparr>items = 0, capacity_m = 2, size_m = 1, front = 0, back_m = 0\<rparr>"
    and "arrays one_of_two 0 = Some [7, 0]"
    by (simp_all add: one_of_two_eq)
  moreover have "move_ctor 1 0 0 one_of_two = (Inr (), moved_into_new)"
    by (simp only: moved_into_new_def moved_into_new_eq snd_conv)
  moreover have "objects moved_into_new 1 =
     Some \<lparr>items = 1, capacity_m = 2, size_m = 1, front = 0, back_m = 0\<rparr>"
    and "arrays moved_into_new 1 = Some [7, 0]"
    and "objects moved_into_new 0 =
     Some \<lparr>items = 0, capacity_m = 2, size_m = 1, front = 0, back_m = 0\<rparr>"
    and "arrays moved_into_new 0 = None"
    and "peek_front 0 moved_into_new = (Inl UseAfterFree, moved_into_new)"
    and "dtor 0 moved_into_new = (Inl DoubleFree, moved_into_new)"
    by (simp_all add: new peek_front_def item_ref_def dtor_def delete_array_def)
  moreover have "move_assign 1 0 (snd (ctor 1 1 0 one_of_two)) = (Inr (), moved_into_old)"
    by (simp only: moved_into_old_def moved_into_old_eq snd_conv)
  moreover have "objects moved_into_old 1 =
     Some \<lparr>items = 0, capacity_m = 2, size_m = 1, front = 0, back_m = 0\<rparr>"
    and "objects moved_into_old 0 =
     Some \<lparr>items = 0, capacity_m = 2, size_m = 1, front = 0, back_m = 0\<rparr>"
    and "fst (dtor 1 moved_into_old) = Inr ()"
    and "fst (dtor 0 (snd (dtor 1 moved_into_old))) = Inl DoubleFree"
    by (simp_all add: old dtor_def delete_array_def)
  ultimately show ?thesis by simp
qed

text \<open>
  C5. On every index below the capacity, \<open>safe_increment\<close> returns what the pure
  function \<open>index \<mapsto> (index + 1) mod capacity\<close> returns: the comparison with
  \<^verbatim>\<open>SIZE_MAX\<close> does not show in the result.
\<close>

theorem safe_increment_is_circular_advance:
  assumes "index < cap"
  shows "safe_increment cap index = Inr (circular_advance cap index)"
proof -
  from assms have "index \<noteq> SIZE_MAX"
    by (rule less_not_SIZE_MAX)
  moreover from assms have "cap \<noteq> 0"
    by auto
  ultimately show ?thesis
    by (simp add: safe_increment_def circular_advance_def)
qed

theorem safe_increment_is_circular_advance_witness:
  "(2::size_t) < 3 \<and> safe_increment 3 2 = Inr (circular_advance 3 2) \<and>
   circular_advance 3 2 = 0"
  using safe_increment_is_circular_advance [of 2 3] by (simp add: circular_advance_def)

text \<open>
  C6. The state invariant (in every queue object \<open>front\<close> and \<open>back\<close> lie in
  \<open>[0, capacity)\<close> and the size is at most the capacity) holds in the memory after every
  call that starts in a memory where it holds, whether the call returns or throws:
  the constructors, the assignments, the destructor, both overloads of \<open>push\<close>, and
  \<open>pop\<close>; the peeks and the observers leave the memory as it is.
\<close>

theorem invariant_preserved:
  assumes "state_invariant s"
  shows "state_invariant (snd (ctor this cap dflt s)) \<and>
     state_invariant (snd (copy_ctor this queue dflt s)) \<and>
     state_invariant (snd (move_ctor this queue dflt s)) \<and>
     state_invariant (snd (copy_assign this queue dflt s)) \<and>
     state_invariant (snd (move_assign this queue s)) \<and>
     state_invariant (snd (dtor this s)) \<and>
     state_invariant (snd (push this v s)) \<and>
     state_invariant (snd (push_rvalue this v s)) \<and>
     state_invariant (snd (pop this s)) \<and>
     snd (peek_front this s) = s \<and> snd (peek_back this s) = s \<and>
     snd (size_op this s) = s \<and> snd (capacity this s) = s \<and>
     snd (empty_op this s) = s \<and> snd (full this s) = s"
proof -
  have "push_rvalue this v s = push this v s"
    by (simp add: push_rvalue_def push_def)
  moreover have "snd (peek_front this s) = s" and "snd (peek_back this s) = s"
    and "snd (size_op this s) = s" and "snd (capacity this s) = s"
    and "snd (empty_op this s) = s" and "snd (full this s) = s"
    by (simp_all add: peek_front_def peek_back_def size_op_def capacity_def empty_op_def
        full_def split: option.splits)
  ultimately show ?thesis
    using assms
    by (simp add: ctor_invariant copy_ctor_invariant move_ctor_invariant
        copy_assign_invariant move_assign_invariant dtor_invariant push_invariant
        pop_invariant)
qed

theorem invariant_preserved_witness:
  "state_invariant one_of_two \<and>
   state_invariant (snd (ctor 1 3 0 one_of_two)) \<and>
   state_invariant (snd (copy_ctor 1 0 0 one_of_two)) \<and>
   state_invariant (snd (move_ctor 1 0 0 one_of_two)) \<and>
   state_invariant (snd (push 0 8 one_of_two)) \<and>
   state_invariant (snd (pop 0 one_of_two)) \<and>
   state_invariant (snd (dtor 0 one_of_two))"
proof -
  have "state_invariant one_of_two"
    by (simp add: one_of_two_eq state_invariant_def indices_ok_def)
  then show ?thesis
    using invariant_preserved [of one_of_two 1 3 0 0 8]
      invariant_preserved [of one_of_two 0 3 0 0 8]
    by simp
qed

text \<open>
  C7. Capacity boundary: after exactly \<open>capacity\<close> pushes into a freshly constructed
  queue, with no pop, all of them have succeeded, \<open>full()\<close> is true and one more push
  throws \<open>Full\<close>; after one pop, one more push succeeds, and the push after that throws
  \<open>Full\<close> again. The queue is constructed in any memory whose free store has room for
  its block.
\<close>

theorem capacity_boundary:
  assumes "cap \<noteq> 0" and "unat cap \<le> free_store s" and "length vs = unat cap"
  shows "\<exists>s1 s2 r s3 s4. ctor this cap dflt s = (Inr (), s1) \<and>
           push_all this vs s1 = (Inr (), s2) \<and>
           full this s2 = (Inr True, s2) \<and> push this v s2 = (Inl Full, s2) \<and>
           pop this s2 = (Inr r, s3) \<and> push this w s3 = (Inr (), s4) \<and>
           push this x s4 = (Inl Full, s4)"
proof -
  from ctor_valid [OF assms(1,2), of this dflt]
  obtain s1 where c: "ctor this cap dflt s = (Inr (), s1)" and v1: "valid_queue s1 this"
    and o1: "objects s1 this =
      Some \<lparr>items = next_array s, capacity_m = cap, size_m = 0, front = 0,
            back_m = cap - 1\<rparr>"
    by blast
  from push_all_valid [OF v1 o1, of vs] assms(3)
  obtain s2 t2 where p: "push_all this vs s1 = (Inr (), s2)" and v2: "valid_queue s2 this"
    and o2: "objects s2 this = Some t2" and c2: "capacity_m t2 = cap"
    and n2: "unat (size_m t2) = unat cap"
    by auto
  have "size_m t2 = capacity_m t2"
    using c2 n2 by (simp add: word_unat_eq_iff)
  from full_boundary [OF v2 o2 this, of v w x] show ?thesis
    using c p by blast
qed

theorem capacity_boundary_witness:
  "(2::size_t) \<noteq> 0 \<and> unat (2::size_t) \<le> free_store (mem0 :: int memory) \<and>
   length [7, 8::int] = unat (2::size_t) \<and>
   (\<exists>s1 s2 r s3 s4. ctor 0 2 (0::int) mem0 = (Inr (), s1) \<and>
      push_all 0 [7, 8::int] s1 = (Inr (), s2) \<and>
      full 0 s2 = (Inr True, s2) \<and> push 0 (9::int) s2 = (Inl Full, s2) \<and>
      pop 0 s2 = (Inr r, s3) \<and> push 0 (9::int) s3 = (Inr (), s4) \<and>
      push 0 (10::int) s4 = (Inl Full, s4))"
  using capacity_boundary [of 2 mem0 "[7, 8::int]" 0 "0::int" 9 9 10]
  by (simp add: mem0_def)

text \<open>
  C8. The claim: construction with capacity 0 always fails with \<open>InvalidCapacity\<close>, and
  construction with any capacity of 1 or more always succeeds. The second half fails:
  the constructor runs \<^verbatim>\<open>new T[capacity]\<close> with no bound on the capacity, and with
  \<^verbatim>\<open>SIZE_MAX\<close> elements asked for the allocation throws and no queue is constructed.
\<close>

theorem ctor_always_succeeds_counterexample:
  "SIZE_MAX \<noteq> (0::size_t) \<and>
   ctor 0 SIZE_MAX (0::int) mem0 = (Inl BadAlloc, mem0)"
proof -
  have "SIZE_MAX \<noteq> (0::size_t)"
    by (simp add: SIZE_MAX_def)
  moreover have "free_store (mem0 :: int memory) < unat SIZE_MAX"
    by (simp add: unat_SIZE_MAX mem0_def)
  ultimately show ?thesis
    by (simp add: ctor_def new_array_def)
qed

text \<open>
  C8 as amended. Construction with capacity 0 throws \<open>InvalidCapacity\<close> and constructs
  nothing. Construction with a capacity of 1 or more that the free store can supply
  returns, and the new queue has \<open>size() = 0\<close> and \<open>capacity()\<close> equal to the capacity
  asked for. Construction with a capacity the free store cannot supply throws the
  allocation's exception and constructs nothing.
\<close>

theorem ctor_zero_or_sized:
  "ctor this 0 dflt s = (Inl InvalidCapacity, s) \<and>
   (cap \<noteq> 0 \<and> unat cap \<le> free_store s \<longrightarrow>
      (\<exists>s'. ctor this cap dflt s = (Inr (), s') \<and>
         size_op this s' = (Inr 0, s') \<and> capacity this s' = (Inr cap, s'))) \<and>
   (cap \<noteq> 0 \<and> free_store s < unat cap \<longrightarrow>
      ctor this cap dflt s = (Inl BadAlloc, s))"
proof -
  have "ctor this 0 dflt s = (Inl InvalidCapacity, s)"
    by (simp add: ctor_def)
  moreover have "\<exists>s'. ctor this cap dflt s = (Inr (), s') \<and>
         size_op this s' = (Inr 0, s') \<and> capacity this s' = (Inr cap, s')"
    if "cap \<noteq> 0" and "unat cap \<le> free_store s"
    using ctor_valid [OF that, of this dflt]
    by (auto simp: size_op_def capacity_def)
  moreover have "ctor this cap dflt s = (Inl BadAlloc, s)"
    if "cap \<noteq> 0" and "free_store s < unat cap"
    using that by (simp add: ctor_def new_array_Inl)
  ultimately show ?thesis by blast
qed

theorem ctor_zero_or_sized_witness:
  "ctor 0 0 (0::int) mem0 = (Inl InvalidCapacity, mem0) \<and>
   (5::size_t) \<noteq> 0 \<and> unat (5::size_t) \<le> free_store (mem0 :: int memory) \<and>
   (\<exists>s'. ctor 0 5 (0::int) mem0 = (Inr (), s') \<and>
      size_op 0 s' = (Inr 0, s') \<and> capacity 0 s' = (Inr 5, s')) \<and>
   (2000::size_t) \<noteq> 0 \<and> free_store (mem0 :: int memory) < unat (2000::size_t) \<and>
   ctor 0 2000 (0::int) mem0 = (Inl BadAlloc, mem0)"
  using ctor_zero_or_sized [of 0 "0::int" mem0 5] ctor_zero_or_sized [of 0 "0::int" mem0 2000]
  by (simp add: mem0_def)

text \<open>
  C9. Copy independence. Let \<open>A\<close> be a well-formed queue and \<open>B\<close> another address.
  Copy construction of \<open>B\<close> from \<open>A\<close> succeeds and gives \<open>B\<close> the contents of \<open>A\<close>;
  after it, whatever sequence of pushes and pops is made on \<open>B\<close>, the size of \<open>A\<close>,
  the values its peeks give and the values its pops return are those of before the
  copy, and whatever sequence is made on \<open>A\<close>, those of \<open>B\<close> are as the copy left
  them. The same holds for copy assignment to a well-formed queue \<open>B\<close> that owns a
  block of its own. The free store has room for the block of the copy.
\<close>

theorem copy_independence:
  assumes "wf_memory s" and "valid_queue s A" and "A \<noteq> B"
    and "objects s A = Some a" and "unat (capacity_m a) \<le> free_store s"
  shows "(\<exists>s1. copy_ctor B A dflt s = (Inr (), s1) \<and>
            valid_queue s1 B \<and> contents s1 B = contents s A \<and>
            (\<forall>ms k. observe A k (mutate B ms s1) = observe A k s) \<and>
            (\<forall>ms k. observe B k (mutate A ms s1) = observe B k s1)) \<and>
         (valid_queue s B \<and> separate s A B \<longrightarrow>
           (\<exists>s1. copy_assign B A dflt s = (Inr (), s1) \<and>
              valid_queue s1 B \<and> contents s1 B = contents s A \<and>
              (\<forall>ms k. observe A k (mutate B ms s1) = observe A k s) \<and>
              (\<forall>ms k. observe B k (mutate A ms s1) = observe B k s1)))"
    (is "?constructed \<and> (?target \<longrightarrow> ?assigned)")
proof -
  note a = assms(4)
  from assms(2) a obtain xs
    where xs: "arrays s (items a) = Some xs" and len: "length xs = unat (capacity_m a)"
    by (auto elim!: valid_queueD)
  have ne: "items a \<noteq> next_array s"
    using assms(1) xs by (rule wf_memory_fresh)
  have valid: "length xs = unat (capacity_m a) \<and> front a < capacity_m a \<and>
      back_m a < capacity_m a \<and> size_m a \<le> capacity_m a \<and>
      unat (back_m a) =
        (unat (front a) + unat (size_m a) + (unat (capacity_m a) - 1))
          mod unat (capacity_m a)"
    using assms(2) a xs by (simp add: valid_queue_def)
  let ?b = "\<lparr>items = next_array s, capacity_m = capacity_m a, size_m = size_m a,
           front = front a, back_m = back_m a\<rparr>"
  have ctor: ?constructed
  proof -
    let ?s1 = "s\<lparr>arrays := (arrays s)(next_array s \<mapsto> xs),
        next_array := Suc (next_array s),
        free_store := free_store s - unat (capacity_m a),
        objects := (objects s)(B \<mapsto> ?b)\<rparr>"
    have sep: "separate ?s1 A B"
      using assms(3) a ne by (simp add: separate_def)
    have same: "view ?s1 A = view s A"
      using assms(3) a ne by (simp add: view_def)
    show ?thesis
    proof (intro exI conjI allI)
      show "copy_ctor B A dflt s = (Inr (), ?s1)"
        using assms(1) a xs len assms(5) by (rule copy_ctor_result)
      show "valid_queue ?s1 B"
        using valid by (simp add: valid_queue_def)
      show "contents ?s1 B = contents s A"
        using a xs by (simp add: contents_def)
      show "observe A k (mutate B ms ?s1) = observe A k s" for ms k
        by (simp only: separate_independent(1) [OF sep] view_observe [OF same])
      show "observe B k (mutate A ms ?s1) = observe B k ?s1" for ms k
        using sep by (rule separate_independent(2))
    qed
  qed
  have assign: ?assigned if vb: "valid_queue s B" and sp: "separate s A B"
  proof -
    from vb obtain b ys where b: "objects s B = Some b"
      and ys: "arrays s (items b) = Some ys"
      by (auto elim!: valid_queueD)
    from sp a b have diff: "items a \<noteq> items b"
      by (simp add: separate_def)
    let ?s1 = "s\<lparr>arrays := ((arrays s)(items b := None))(next_array s \<mapsto> xs),
        next_array := Suc (next_array s),
        free_store := free_store s + length ys - unat (capacity_m a),
        objects := (objects s)(B \<mapsto> ?b)\<rparr>"
    have room: "unat (capacity_m a) \<le> free_store s + length ys"
      using assms(5) by simp
    have sep: "separate ?s1 A B"
      using assms(3) a ne by (simp add: separate_def)
    have same: "view ?s1 A = view s A"
      using assms(3) a ne diff by (simp add: view_def)
    show ?thesis
    proof (intro exI conjI allI)
      show "copy_assign B A dflt s = (Inr (), ?s1)"
        using assms(1,3) a b xs len ys diff room by (rule copy_assign_result)
      show "valid_queue ?s1 B"
        using valid by (simp add: valid_queue_def)
      show "contents ?s1 B = contents s A"
        using a xs by (simp add: contents_def)
      show "observe A k (mutate B ms ?s1) = observe A k s" for ms k
        by (simp only: separate_independent(1) [OF sep] view_observe [OF same])
      show "observe B k (mutate A ms ?s1) = observe B k ?s1" for ms k
        using sep by (rule separate_independent(2))
    qed
  qed
  show ?thesis
  proof (intro conjI impI)
    show ?constructed by (rule ctor)
    assume ?target
    then show ?assigned by (intro assign) simp_all
  qed
qed

theorem copy_independence_witness:
  "wf_memory one_of_two \<and> valid_queue one_of_two 0 \<and> (0::nat) \<noteq> 1 \<and>
   objects one_of_two 0 =
     Some \<lparr>items = 0, capacity_m = 2, size_m = 1, front = 0, back_m = 0\<rparr> \<and>
   unat (2::size_t) \<le> free_store one_of_two \<and>
   (\<exists>s1. copy_ctor 1 0 0 one_of_two = (Inr (), s1) \<and>
      contents s1 1 = contents one_of_two 0 \<and>
      observe 0 1 (mutate 1 [Push 9, Pop, Pop] s1) = (Inr 1, Inr 7, Inr 7, Inr [7]) \<and>
      observe 1 1 (mutate 0 [Pop, Push 5] s1) = observe 1 1 s1) \<and>
   wf_memory two_queues \<and> valid_queue two_queues 0 \<and> valid_queue two_queues 1 \<and>
   separate two_queues 0 1 \<and>
   objects two_queues 0 =
     Some \<lparr>items = 0, capacity_m = 2, size_m = 1, front = 0, back_m = 0\<rparr> \<and>
   unat (2::size_t) \<le> free_store two_queues \<and>
   (\<exists>s1. copy_assign 1 0 0 two_queues = (Inr (), s1) \<and>
      contents s1 1 = contents two_queues 0 \<and>
      observe 0 1 (mutate 1 [Push 9, Pop, Pop] s1) = observe 0 1 two_queues \<and>
      observe 1 1 (mutate 0 [Pop, Push 5] s1) = observe 1 1 s1)"
proof -
  let ?a = "\<lparr>items = 0, capacity_m = 2, size_m = 1, front = 0, back_m = 0\<rparr>"
  have h1: "wf_memory one_of_two" "valid_queue one_of_two 0" "(0::nat) \<noteq> 1"
    "objects one_of_two 0 = Some ?a" "unat (capacity_m ?a) \<le> free_store one_of_two"
    by (simp_all add: one_of_two_eq wf_memory_def valid_queue_def)
  have h2: "wf_memory two_queues" "valid_queue two_queues 0" "valid_queue two_queues 1"
    "separate two_queues 0 1"
    "objects two_queues 0 = Some ?a" "unat (capacity_m ?a) \<le> free_store two_queues"
    by (simp_all add: two_queues_eq wf_memory_def valid_queue_def separate_def)
  from copy_independence [OF h1, of 0] obtain s1
    where s1: "copy_ctor 1 0 0 one_of_two = (Inr (), s1)"
      and c1: "contents s1 1 = contents one_of_two 0"
      and a1: "\<And>ms k. observe 0 k (mutate 1 ms s1) = observe 0 k one_of_two"
      and b1: "\<And>ms k. observe 1 k (mutate 0 ms s1) = observe 1 k s1"
    by blast
  have c: "\<exists>s1. copy_ctor 1 0 0 one_of_two = (Inr (), s1) \<and>
      contents s1 1 = contents one_of_two 0 \<and>
      observe 0 1 (mutate 1 [Push 9, Pop, Pop] s1) = (Inr 1, Inr 7, Inr 7, Inr [7]) \<and>
      observe 1 1 (mutate 0 [Pop, Push 5] s1) = observe 1 1 s1"
  proof (intro exI conjI)
    show "copy_ctor 1 0 0 one_of_two = (Inr (), s1)" by (rule s1)
    show "contents s1 1 = contents one_of_two 0" by (rule c1)
    show "observe 0 1 (mutate 1 [Push 9, Pop, Pop] s1) = (Inr 1, Inr 7, Inr 7, Inr [7])"
      by (simp only: a1 observe_one_of_two)
    show "observe 1 1 (mutate 0 [Pop, Push 5] s1) = observe 1 1 s1" by (rule b1)
  qed
  from copy_independence [OF h2(1,2) h1(3) h2(5,6), of 0] h2(3,4) obtain s2
    where "copy_assign 1 0 0 two_queues = (Inr (), s2)"
      and "contents s2 1 = contents two_queues 0"
      and "\<And>ms k. observe 0 k (mutate 1 ms s2) = observe 0 k two_queues"
      and "\<And>ms k. observe 1 k (mutate 0 ms s2) = observe 1 k s2"
    by blast
  then have "\<exists>s1. copy_assign 1 0 0 two_queues = (Inr (), s1) \<and>
      contents s1 1 = contents two_queues 0 \<and>
      observe 0 1 (mutate 1 [Push 9, Pop, Pop] s1) = observe 0 1 two_queues \<and>
      observe 1 1 (mutate 0 [Pop, Push 5] s1) = observe 1 1 s1"
    by blast
  with c h1 h2 show ?thesis by simp
qed

text \<open>
  C10. A successful \<open>pop\<close> on a well-formed queue of size above 0 changes, in the whole
  memory, only \<open>front\<close> (advanced circularly) and the size (one less) of the object:
  capacity, \<open>back\<close>, the pointer and every block are as before, and the reference
  returned still reads, after the call, the value that was in the slot at \<open>front\<close>.
\<close>

theorem pop_frame:
  assumes "valid_queue s this" and "objects s this = Some t"
    and "arrays s (items t) = Some xs" and "size_m t \<noteq> 0"
  shows "\<exists>r s'. pop this s = (Inr r, s') \<and>
     s' = s\<lparr>objects := (objects s)(this \<mapsto>
            t\<lparr>front := (front t + 1) mod capacity_m t, size_m := size_m t - 1\<rparr>)\<rparr> \<and>
     arrays s' = arrays s \<and>
     r = (items t, front t) \<and>
     deref s' r = Inr (xs ! unat (front t)) \<and>
     deref s r = Inr (xs ! unat (front t))"
proof -
  from assms(1-3) have len: "length xs = unat (capacity_m t)"
    and f: "front t < capacity_m t"
    by (auto elim!: valid_queueD)
  have "unat (front t) < length xs"
    using len f by (simp add: word_less_nat_alt)
  then show ?thesis
    using pop_success [OF assms(2,3) len f assms(4)] assms(3)
    by (simp add: circular_advance_def deref_def read_item_def)
qed

theorem pop_frame_witness:
  "valid_queue two_of_two 0 \<and>
   objects two_of_two 0 =
     Some \<lparr>items = 0, capacity_m = 2, size_m = 2, front = 0, back_m = 1\<rparr> \<and>
   arrays two_of_two 0 = Some [7, 8] \<and>
   size_m \<lparr>items = 0, capacity_m = 2, size_m = 2, front = 0, back_m = 1\<rparr> \<noteq> 0 \<and>
   (\<exists>s'. pop 0 two_of_two = (Inr (0, 0), s') \<and>
      objects s' 0 =
        Some \<lparr>items = 0, capacity_m = 2, size_m = 1, front = 1, back_m = 1\<rparr> \<and>
      arrays s' 0 = Some [7, 8] \<and> deref s' (0, 0) = Inr 7)"
  using
    pop_frame [of two_of_two 0
      "\<lparr>items = 0, capacity_m = 2, size_m = 2, front = 0, back_m = 1\<rparr>" "[7, 8]"]
    valid_two_of_two
  by (simp add: two_of_two_eq)

end
